theory Spec2Isabelle
  imports Complex_Main
begin

section \<open>Tensors, errors and broadcasting\<close>

text \<open>
  Attention tensors are rectangular nested lists of reals, outermost axis first.
  Entries are real numbers: rounding of the host's floating point arithmetic is not
  part of this development. An axis of extent 0 forgets the extents below it, which
  are then read as 0.
\<close>

type_synonym vec = "real list"
type_synonym mat = "vec list"
type_synonym tensor3 = "mat list"
type_synonym tensor4 = "tensor3 list"

datatype error =
    RuntimeError | IndexError | ZeroDivisionError | NotImplementedError
  | OverflowError | ValueError

fun mapM :: "('a \<Rightarrow> error + 'b) \<Rightarrow> 'a list \<Rightarrow> error + 'b list" where
  "mapM f [] = Inr []"
| "mapM f (x # xs) =
     (case f x of Inl e \<Rightarrow> Inl e
      | Inr y \<Rightarrow> (case mapM f xs of Inl e \<Rightarrow> Inl e | Inr ys \<Rightarrow> Inr (y # ys)))"

text \<open>
  Broadcasting of a binary operation along one axis: equal extents pair up, an extent
  of 1 is repeated, anything else is the library's shape error.
\<close>

definition bzip :: "('a \<Rightarrow> 'b \<Rightarrow> error + 'c) \<Rightarrow> 'a list \<Rightarrow> 'b list \<Rightarrow> error + 'c list" where
  "bzip f xs ys =
     (if length xs = length ys then mapM (\<lambda>(x, y). f x y) (zip xs ys)
      else if length xs = 1 then mapM (f (hd xs)) ys
      else if length ys = 1 then mapM (\<lambda>x. f x (hd ys)) xs
      else Inl RuntimeError)"

text \<open>
  Writing a value into a slice (\<open>dest[...] = src\<close>): the source is expanded to the
  extent of the destination, which never grows.
\<close>

definition expand_into :: "('a \<Rightarrow> 'b \<Rightarrow> error + 'c) \<Rightarrow> 'a list \<Rightarrow> 'b list \<Rightarrow> error + 'c list" where
  "expand_into f dest src =
     (if length src = length dest then mapM (\<lambda>(d, s). f d s) (zip dest src)
      else if length src = 1 then mapM (\<lambda>d. f d (hd src)) dest
      else Inl RuntimeError)"

definition assign_vec :: "vec \<Rightarrow> vec \<Rightarrow> error + vec" where
  "assign_vec = expand_into (\<lambda>d s. Inr s)"

definition assign_mat :: "mat \<Rightarrow> mat \<Rightarrow> error + mat" where
  "assign_mat = expand_into assign_vec"

definition assign3 :: "tensor3 \<Rightarrow> tensor3 \<Rightarrow> error + tensor3" where
  "assign3 = expand_into assign_mat"

definition assign4 :: "tensor4 \<Rightarrow> tensor4 \<Rightarrow> error + tensor4" where
  "assign4 = expand_into assign3"

section \<open>AttentionControl: the hook and its two counters\<close>

datatype place = Down | Mid | Up

text \<open>A region key is \<open>place_in_unet\<close> together with \<open>is_cross\<close>.\<close>

type_synonym region_key = "place \<times> bool"
type_synonym store = "region_key \<Rightarrow> tensor3 list"

record control =
  cur_step :: int
  num_att_layers :: int
  cur_att_layer :: int

definition init_control :: control where
  "init_control = \<lparr>cur_step = 0, num_att_layers = - 1, cur_att_layer = 0\<rparr>"

definition reset :: "'a control_scheme \<Rightarrow> 'a control_scheme" where
  "reset st = st\<lparr>cur_step := 0, cur_att_layer := 0\<rparr>"

text \<open>\<open>LOW_RESOURCE\<close> is a module-level flag; it is passed explicitly.\<close>

definition num_uncond_att_layers :: "bool \<Rightarrow> 'a control_scheme \<Rightarrow> int" where
  "num_uncond_att_layers low_resource st = (if low_resource then num_att_layers st else 0)"

type_synonym 'a forward_fn =
  "'a control_scheme \<Rightarrow> tensor3 \<Rightarrow> bool \<Rightarrow> place \<Rightarrow> error + ('a control_scheme \<times> tensor3)"

type_synonym 'a between_fn = "'a control_scheme \<Rightarrow> error + 'a control_scheme"

text \<open>
  \<open>AttentionControl.__call__\<close>. The subclass methods \<open>forward\<close> and
  \<open>between_steps\<close> are arguments. Without \<open>LOW_RESOURCE\<close> only the second half of the
  leading axis is handed to \<open>forward\<close> and its result is written back into that half.
\<close>

definition run_forward :: "bool \<Rightarrow> 'a forward_fn \<Rightarrow> 'a forward_fn" where
  "run_forward low_resource fwd st attn is_cross plc =
     (if cur_att_layer st \<ge> num_uncond_att_layers low_resource st then
        (if low_resource then fwd st attn is_cross plc
         else
           (let h = length attn in
            case fwd st (drop (h div 2) attn) is_cross plc of
              Inl e \<Rightarrow> Inl e
            | Inr (st', res) \<Rightarrow>
                (case assign3 (drop (h div 2) attn) res of
                   Inl e \<Rightarrow> Inl e
                 | Inr half \<Rightarrow> Inr (st', take (h div 2) attn @ half))))
      else Inr (st, attn))"

definition advance :: "bool \<Rightarrow> 'a between_fn \<Rightarrow> 'a control_scheme \<Rightarrow> error + 'a control_scheme" where
  "advance low_resource btw st =
     (let st1 = st\<lparr>cur_att_layer := cur_att_layer st + 1\<rparr> in
      if cur_att_layer st1 = num_att_layers st1 + num_uncond_att_layers low_resource st1
      then btw (st1\<lparr>cur_att_layer := 0, cur_step := cur_step st1 + 1\<rparr>)
      else Inr st1)"

definition call :: "bool \<Rightarrow> 'a forward_fn \<Rightarrow> 'a between_fn \<Rightarrow> 'a forward_fn" where
  "call low_resource fwd btw st attn is_cross plc =
     (case run_forward low_resource fwd st attn is_cross plc of
        Inl e \<Rightarrow> Inl e
      | Inr (st1, attn1) \<Rightarrow>
          (case advance low_resource btw st1 of
             Inl e \<Rightarrow> Inl e
           | Inr st2 \<Rightarrow> Inr (st2, attn1)))"

text \<open>The defaults of the base class and \<open>EmptyControl.forward\<close>.\<close>

definition between_steps_default :: "'a between_fn" where
  "between_steps_default st = Inr st"

definition empty_forward :: "'a forward_fn" where
  "empty_forward st attn is_cross plc = Inr (st, attn)"

text \<open>A session: the driver's hook calls in order, stopping at the first exception.\<close>

fun session :: "bool \<Rightarrow> 'a forward_fn \<Rightarrow> 'a between_fn \<Rightarrow> 'a control_scheme
    \<Rightarrow> (tensor3 \<times> bool \<times> place) list \<Rightarrow> error + 'a control_scheme" where
  "session lr fwd btw st [] = Inr st"
| "session lr fwd btw st ((attn, is_cross, plc) # rest) =
     (case call lr fwd btw st attn is_cross plc of
        Inl e \<Rightarrow> Inl e
      | Inr (st', out) \<Rightarrow> session lr fwd btw st' rest)"

text \<open>
  What the counters need from the subclass: \<open>forward\<close> and \<open>between_steps\<close> leave the
  three counter fields alone.
\<close>

definition counters :: "'a control_scheme \<Rightarrow> int \<times> int \<times> int" where
  "counters st = (cur_step st, num_att_layers st, cur_att_layer st)"

definition forward_keeps_counters :: "'a forward_fn \<Rightarrow> bool" where
  "forward_keeps_counters fwd =
     (\<forall>st attn is_cross plc st' out.
        fwd st attn is_cross plc = Inr (st', out) \<longrightarrow> counters st' = counters st)"

definition between_keeps_counters :: "'a between_fn \<Rightarrow> bool" where
  "between_keeps_counters btw = (\<forall>st st'. btw st = Inr st' \<longrightarrow> counters st' = counters st)"

text \<open>The number of hook calls the driver makes in one timestep.\<close>

definition layers_per_step :: "bool \<Rightarrow> 'a control_scheme \<Rightarrow> int" where
  "layers_per_step lr st = num_att_layers st + num_uncond_att_layers lr st"

text \<open>A four-call session of a two-layer network, used to exercise the counters.\<close>

definition demo_calls :: "(tensor3 \<times> bool \<times> place) list" where
  "demo_calls = replicate 4 ([[[1, 0]], [[0, 1]]], True, Down)"

section \<open>AttentionStore\<close>

record store_control = control +
  step_store :: store
  attention_store :: "store option"

text \<open>
  \<open>get_empty_store()\<close> has the six region keys, each with an empty list. The attribute
  \<open>attention_store\<close> is either the empty dictionary \<open>{}\<close> (\<open>None\<close>) or a former scratch
  buffer, which has all six keys (\<open>Some\<close>).
\<close>

definition get_empty_store :: store where
  "get_empty_store = (\<lambda>key. [])"

definition region_keys :: "region_key list" where
  "region_keys = [(Down, True), (Mid, True), (Up, True), (Down, False), (Mid, False), (Up, False)]"

definition init_store :: store_control where
  "init_store = \<lparr>cur_step = 0, num_att_layers = - 1, cur_att_layer = 0,
     step_store = get_empty_store, attention_store = None\<rparr>"

text \<open>\<open>attn.shape[1]\<close> of a tensor with three axes, \<open>t.shape[2]\<close> of one with four.\<close>

definition extent1 :: "'a list list \<Rightarrow> nat" where
  "extent1 t = (case t of [] \<Rightarrow> 0 | m # _ \<Rightarrow> length m)"

definition extent2 :: "'a list list list \<Rightarrow> nat" where
  "extent2 t = (case t of [] \<Rightarrow> 0 | m # _ \<Rightarrow> extent1 m)"

text \<open>
  \<open>AttentionStore.forward\<close>: the memory ceiling is \<open>32 ** 2\<close> in the Stable Diffusion
  variant and \<open>16 ** 2\<close> in the LDM variant; it is the first argument.
\<close>

definition append_store :: "store \<Rightarrow> region_key \<Rightarrow> tensor3 \<Rightarrow> store" where
  "append_store s key attn = s(key := s key @ [attn])"

definition store_forward :: "nat \<Rightarrow> 'a store_control_scheme \<Rightarrow> tensor3 \<Rightarrow> bool \<Rightarrow> place
    \<Rightarrow> error + ('a store_control_scheme \<times> tensor3)" where
  "store_forward max_res st attn is_cross plc =
     (if extent1 attn \<le> max_res
      then Inr (st\<lparr>step_store := append_store (step_store st) (plc, is_cross) attn\<rparr>, attn)
      else Inr (st, attn))"

text \<open>The in-place \<open>a += s\<close>: \<open>s\<close> is expanded to the shape of \<open>a\<close>.\<close>

definition iadd3 :: "tensor3 \<Rightarrow> tensor3 \<Rightarrow> error + tensor3" where
  "iadd3 = expand_into (expand_into (expand_into (\<lambda>x y. Inr (x + y))))"

text \<open>
  \<open>for i in range(len(attention_store[key])): attention_store[key][i] += step_store[key][i]\<close>:
  a scratch list that is too short is an \<open>IndexError\<close>.
\<close>

fun add_items :: "tensor3 list \<Rightarrow> tensor3 list \<Rightarrow> error + tensor3 list" where
  "add_items [] ss = Inr []"
| "add_items (a # as) [] = Inl IndexError"
| "add_items (a # as) (s # ss) =
     (case iadd3 a s of Inl e \<Rightarrow> Inl e
      | Inr r \<Rightarrow> (case add_items as ss of Inl e \<Rightarrow> Inl e | Inr rs \<Rightarrow> Inr (r # rs)))"

fun merge_keys :: "store \<Rightarrow> store \<Rightarrow> region_key list \<Rightarrow> error + store" where
  "merge_keys acc stp [] = Inr acc"
| "merge_keys acc stp (k # ks) =
     (case add_items (acc k) (stp k) of Inl e \<Rightarrow> Inl e
      | Inr v \<Rightarrow> merge_keys (acc(k := v)) stp ks)"

definition store_between_steps :: "'a store_control_scheme \<Rightarrow> error + 'a store_control_scheme" where
  "store_between_steps st =
     (case attention_store st of
        None \<Rightarrow> Inr (st\<lparr>attention_store := Some (step_store st), step_store := get_empty_store\<rparr>)
      | Some acc \<Rightarrow>
          (case merge_keys acc (step_store st) region_keys of
             Inl e \<Rightarrow> Inl e
           | Inr acc' \<Rightarrow> Inr (st\<lparr>attention_store := Some acc', step_store := get_empty_store\<rparr>)))"

text \<open>
  \<open>get_average_attention\<close>: every accumulated tensor divided by \<open>cur_step\<close>. (Before the
  first completed step \<open>attention_store\<close> is \<open>{}\<close> and so is the result.)
\<close>

definition div3 :: "tensor3 \<Rightarrow> int \<Rightarrow> tensor3" where
  "div3 item k = map (map (map (\<lambda>x. x / real_of_int k))) item"

definition get_average_attention :: "'a store_control_scheme \<Rightarrow> store option" where
  "get_average_attention st =
     (case attention_store st of
        None \<Rightarrow> None
      | Some acc \<Rightarrow> Some (\<lambda>key. map (\<lambda>item. div3 item (cur_step st)) (acc key)))"

definition store_reset :: "'a store_control_scheme \<Rightarrow> 'a store_control_scheme" where
  "store_reset st = (reset st)\<lparr>step_store := get_empty_store, attention_store := None\<rparr>"

text \<open>
  The wrap branch of \<open>__call__\<close> at the end of a timestep whose scratch buffer is \<open>s\<close>:
  the layer counter is zeroed, the step counter incremented and \<open>between_steps\<close> runs.
\<close>

definition complete_step :: "'a store_control_scheme \<Rightarrow> store \<Rightarrow> error + 'a store_control_scheme" where
  "complete_step st s =
     store_between_steps (st\<lparr>cur_att_layer := 0, cur_step := cur_step st + 1, step_store := s\<rparr>)"

fun complete_steps :: "'a store_control_scheme \<Rightarrow> store list \<Rightarrow> error + 'a store_control_scheme" where
  "complete_steps st [] = Inr st"
| "complete_steps st (s # ss) =
     (case complete_step st s of Inl e \<Rightarrow> Inl e | Inr st' \<Rightarrow> complete_steps st' ss)"

text \<open>Elementwise sum of two tensors of one shape, and the shapes held by a store.\<close>

definition add3 :: "tensor3 \<Rightarrow> tensor3 \<Rightarrow> tensor3" where
  "add3 a b = map2 (map2 (map2 (+))) a b"

definition shape3 :: "tensor3 \<Rightarrow> nat list list" where
  "shape3 a = map (map length) a"

definition shape_store :: "store \<Rightarrow> nat list list list list" where
  "shape_store s = map (\<lambda>k. map shape3 (s k)) region_keys"

definition add_store :: "store \<Rightarrow> store \<Rightarrow> store" where
  "add_store s t = (\<lambda>key. map2 add3 (s key) (t key))"

text \<open>Two scratch buffers of one shape, used to exercise the accumulator.\<close>

definition demo_store_a :: store where
  "demo_store_a = get_empty_store((Down, True) := [[[[1, 2]]]])"

definition demo_store_b :: store where
  "demo_store_b = get_empty_store((Down, True) := [[[[3, 4]]]])"

section \<open>AttentionControlEdit and its three subclasses\<close>

text \<open>Indexing as Python and the tensor library do it: negative indices count from the end.\<close>

definition py_index :: "'a list \<Rightarrow> int \<Rightarrow> error + 'a" where
  "py_index xs i =
     (let n = int (length xs) in
      if 0 \<le> i \<and> i < n then Inr (xs ! nat i)
      else if - n \<le> i \<and> i < 0 then Inr (xs ! nat (n + i))
      else Inl IndexError)"

text \<open>
  Multiplying a tensor of shape \<open>(b, h, p, n)\<close> by per-prompt, per-token weights of shape
  \<open>(b', 1, 1, n')\<close> (the schedule entry \<open>alpha_words\<close>, the refinement \<open>alphas\<close>, the
  equalizer): the prompt and token axes broadcast, the two unit axes always do.
\<close>

definition mul_words :: "tensor4 \<Rightarrow> mat \<Rightarrow> error + tensor4" where
  "mul_words t w =
     bzip (\<lambda>t3 wrow. mapM (mapM (\<lambda>v. bzip (\<lambda>x y. Inr (x * y)) v wrow)) t3) t w"

definition add4 :: "tensor4 \<Rightarrow> tensor4 \<Rightarrow> error + tensor4" where
  "add4 = bzip (bzip (bzip (bzip (\<lambda>x y. Inr (x + y)))))"

definition one_minus :: "mat \<Rightarrow> mat" where
  "one_minus w = map (map (\<lambda>a. 1 - a)) w"

text \<open>
  The subclass decides \<open>replace_cross_attention\<close>. \<open>Replace\<close> holds the replacement mapper
  (one token-by-token matrix per edited prompt), \<open>Refine\<close> the index mapper and its alphas,
  \<open>Reweight\<close> the equalizer and the optional previous controller, of which only
  \<open>replace_cross_attention\<close> is ever used. \<open>Abstract\<close> is the base class.
\<close>

datatype edit_kind =
    Abstract
  | Replace "mat list"
  | Refine "int list list" mat
  | Reweight mat "edit_kind option"

text \<open>\<open>einsum('hpw,bwn->bhpn')\<close>: the one shared axis \<open>w\<close> broadcasts, then it is summed.\<close>

definition col_sums :: "mat \<Rightarrow> vec" where
  "col_sums rows = (case rows of [] \<Rightarrow> [] | r # rs \<Rightarrow> foldl (map2 (+)) r rs)"

definition vec_mat :: "vec \<Rightarrow> mat \<Rightarrow> error + vec" where
  "vec_mat v m =
     (case bzip (\<lambda>x row. Inr (map ((*) x) row)) v m of
        Inl e \<Rightarrow> Inl e
      | Inr rows \<Rightarrow> Inr (col_sums rows))"

definition einsum_hpw_bwn :: "tensor3 \<Rightarrow> mat list \<Rightarrow> error + tensor4" where
  "einsum_hpw_bwn attn_base mapper =
     mapM (\<lambda>m. mapM (mapM (\<lambda>v. vec_mat v m)) attn_base) mapper"

text \<open>\<open>attn_base[:, :, mapper].permute(2, 0, 1, 3)\<close>.\<close>

definition gather_tokens :: "tensor3 \<Rightarrow> int list list \<Rightarrow> error + tensor4" where
  "gather_tokens attn_base mapper =
     mapM (\<lambda>idx. mapM (mapM (\<lambda>v. mapM (py_index v) idx)) attn_base) mapper"

text \<open>
  With a previous controller the source's product carries one more leading axis of
  extent 1, which every later operation and the final slice assignment ignore; it is
  left out here.
\<close>

fun replace_cross_attention :: "edit_kind \<Rightarrow> tensor3 \<Rightarrow> tensor4 \<Rightarrow> error + tensor4" where
  "replace_cross_attention Abstract attn_base att_replace = Inl NotImplementedError"
| "replace_cross_attention (Replace mapper) attn_base att_replace =
     einsum_hpw_bwn attn_base mapper"
| "replace_cross_attention (Refine mapper alphas) attn_base att_replace =
     (case gather_tokens attn_base mapper of
        Inl e \<Rightarrow> Inl e
      | Inr attn_base_replace \<Rightarrow>
          (case mul_words attn_base_replace alphas of
             Inl e \<Rightarrow> Inl e
           | Inr l \<Rightarrow>
               (case mul_words att_replace (one_minus alphas) of
                  Inl e \<Rightarrow> Inl e
                | Inr r \<Rightarrow> add4 l r)))"
| "replace_cross_attention (Reweight equalizer None) attn_base att_replace =
     mul_words [attn_base] equalizer"
| "replace_cross_attention (Reweight equalizer (Some prev)) attn_base att_replace =
     (case replace_cross_attention prev attn_base att_replace of
        Inl e \<Rightarrow> Inl e
      | Inr b \<Rightarrow> mul_words b equalizer)"

text \<open>\<open>replace_self_attention\<close>; \<open>att_replace.shape[2]\<close> is the number of query positions.\<close>

definition replace_self_attention :: "tensor3 \<Rightarrow> tensor4 \<Rightarrow> tensor4" where
  "replace_self_attention attn_base att_replace =
     (if extent2 att_replace \<le> 16 ^ 2 then replicate (length att_replace) attn_base
      else att_replace)"

record local_blend =
  alpha_layers :: mat
  threshold :: real

record edit_control = store_control +
  batch_size :: nat
  cross_replace_alpha :: "mat list"
  num_self_replace :: "int \<times> int"
  local_blend :: "local_blend option"
  kind :: edit_kind

text \<open>\<open>attn.reshape(batch_size, h, ...)\<close> for an \<open>attn\<close> of \<open>batch_size * h\<close> rows.\<close>

definition split_batch :: "nat \<Rightarrow> nat \<Rightarrow> 'a list \<Rightarrow> 'a list list" where
  "split_batch n h xs = map (\<lambda>i. take h (drop (i * h) xs)) [0..<n]"

text \<open>
  The part of \<open>AttentionControlEdit.forward\<close> after the store has recorded the call: the
  tensor that is returned. \<open>h = attn.shape[0] // batch_size\<close> divides by zero for an empty
  prompt batch, and the reshape needs \<open>batch_size * h\<close> rows.
\<close>

definition edit_attention :: "'a edit_control_scheme \<Rightarrow> tensor3 \<Rightarrow> bool \<Rightarrow> error + tensor3" where
  "edit_attention st attn is_cross =
     (if is_cross \<or> (fst (num_self_replace st) \<le> cur_step st \<and> cur_step st < snd (num_self_replace st))
      then
        (if batch_size st = 0 then Inl ZeroDivisionError
         else
           (let h = length attn div batch_size st in
            if batch_size st * h \<noteq> length attn then Inl RuntimeError
            else
              (let rows = split_batch (batch_size st) h attn;
                   attn_base = hd rows;
                   attn_repalce = tl rows
               in
               (case
                  (if is_cross then
                     (case py_index (cross_replace_alpha st) (cur_step st) of
                        Inl e \<Rightarrow> Inl e
                      | Inr alpha_words \<Rightarrow>
                          (case replace_cross_attention (kind st) attn_base attn_repalce of
                             Inl e \<Rightarrow> Inl e
                           | Inr rc \<Rightarrow>
                               (case mul_words rc alpha_words of
                                  Inl e \<Rightarrow> Inl e
                                | Inr l \<Rightarrow>
                                    (case mul_words attn_repalce (one_minus alpha_words) of
                                       Inl e \<Rightarrow> Inl e
                                     | Inr r \<Rightarrow>
                                         (case add4 l r of
                                            Inl e \<Rightarrow> Inl e
                                          | Inr attn_repalce_new \<Rightarrow>
                                              assign4 attn_repalce attn_repalce_new)))))
                   else assign4 attn_repalce (replace_self_attention attn_base attn_repalce))
                of
                  Inl e \<Rightarrow> Inl e
                | Inr edited \<Rightarrow> Inr (concat (attn_base # edited))))))
      else Inr attn)"

text \<open>
  \<open>AttentionControlEdit.forward\<close>. The store appends the very tensor that the reshape
  then views and the slice assignment writes into, so the scratch buffer holds the tensor
  as it is returned.
\<close>

definition edit_forward :: "nat \<Rightarrow> 'a edit_control_scheme \<Rightarrow> tensor3 \<Rightarrow> bool \<Rightarrow> place
    \<Rightarrow> error + ('a edit_control_scheme \<times> tensor3)" where
  "edit_forward max_res st attn is_cross plc =
     (case edit_attention st attn is_cross of
        Inl e \<Rightarrow> Inl e
      | Inr out \<Rightarrow> store_forward max_res st out is_cross plc)"

text \<open>
  Python floats, as far as \<open>int(num_steps * self_replace_steps[i])\<close> needs them. A finite
  binary64 value is \<open>Finite m e\<close>, standing for \<open>m * 2 ^ e\<close>; a double has \<open>\<bar>m\<bar> < 2 ^ 53\<close>
  and \<open>- 1074 \<le> e \<le> 971\<close>. The sign of a zero is not kept: \<open>int()\<close> does not see it.
\<close>

datatype pyfloat = Finite int int | PosInf | NegInf | NaN

text \<open>\<open>int.bit_length\<close> of a natural number.\<close>

fun bit_length :: "nat \<Rightarrow> nat" where
  "bit_length n = (if n = 0 then 0 else Suc (bit_length (n div 2)))"

declare bit_length.simps [simp del]

text \<open>\<open>m / 2 ^ s\<close> rounded to the nearest integer, ties to the even one.\<close>

definition round_half_even :: "int \<Rightarrow> nat \<Rightarrow> int" where
  "round_half_even m s =
     (let q = m div 2 ^ s; r = m mod 2 ^ s in
      if 2 * r < 2 ^ s then q
      else if 2 ^ s < 2 * r then q + 1
      else if even q then q else q + 1)"

text \<open>
  The exact value \<open>m * 2 ^ e\<close> rounded to binary64, to nearest with ties to even: 53
  significant bits, no exponent below \<open>- 1074\<close> (gradual underflow), and an infinity from
  \<open>2 ^ 1024\<close> on.
\<close>

definition round_double :: "int \<Rightarrow> int \<Rightarrow> pyfloat" where
  "round_double m e =
     (let s = nat (max (int (bit_length (nat \<bar>m\<bar>)) - 53) (- 1074 - e));
          m' = round_half_even m s;
          e' = e + int s
      in if m' \<noteq> 0 \<and> 1024 < int (bit_length (nat \<bar>m'\<bar>)) + e'
         then (if 0 < m' then PosInf else NegInf)
         else Finite m' e')"

text \<open>
  The conversion of the integer operand of \<open>int * float\<close>: correctly rounded, an
  \<open>OverflowError\<close> when the integer is too large for a float.
\<close>

definition float_of_int :: "int \<Rightarrow> error + pyfloat" where
  "float_of_int n =
     (case round_double n 0 of
        Finite m e \<Rightarrow> Inr (Finite m e)
      | _ \<Rightarrow> Inl OverflowError)"

fun float_mul :: "pyfloat \<Rightarrow> pyfloat \<Rightarrow> pyfloat" where
  "float_mul (Finite a d) (Finite b e) = round_double (a * b) (d + e)"
| "float_mul NaN y = NaN"
| "float_mul x NaN = NaN"
| "float_mul (Finite a d) PosInf = (if a = 0 then NaN else if 0 < a then PosInf else NegInf)"
| "float_mul (Finite a d) NegInf = (if a = 0 then NaN else if 0 < a then NegInf else PosInf)"
| "float_mul PosInf (Finite b e) = (if b = 0 then NaN else if 0 < b then PosInf else NegInf)"
| "float_mul NegInf (Finite b e) = (if b = 0 then NaN else if 0 < b then NegInf else PosInf)"
| "float_mul PosInf PosInf = PosInf"
| "float_mul PosInf NegInf = NegInf"
| "float_mul NegInf PosInf = NegInf"
| "float_mul NegInf NegInf = PosInf"

text \<open>\<open>int()\<close> of a float truncates towards zero; an infinity or a NaN is an exception.\<close>

definition int_of_float :: "pyfloat \<Rightarrow> error + int" where
  "int_of_float x =
     (case x of
        Finite m e \<Rightarrow>
          Inr (if 0 \<le> e then m * 2 ^ nat e
               else if 0 \<le> m then m div 2 ^ nat (- e)
               else - ((- m) div 2 ^ nat (- e)))
      | NaN \<Rightarrow> Inl ValueError
      | _ \<Rightarrow> Inl OverflowError)"

text \<open>The real number that a finite float stands for.\<close>

definition float_value :: "pyfloat \<Rightarrow> real" where
  "float_value x =
     (case x of
        Finite m e \<Rightarrow> (if 0 \<le> e then of_int m * 2 ^ nat e else of_int m / 2 ^ nat (- e))
      | _ \<Rightarrow> 0)"

text \<open>
  \<open>AttentionControlEdit.__init__\<close>. The schedule comes from
  \<open>ptp_utils.get_time_words_attention_alpha\<close>, which is not part of these sources, and is
  an argument. \<open>self_replace_steps\<close> is a float \<open>f\<close>, which becomes the pair \<open>(0, f)\<close> with
  the integer 0, or a pair of numbers. \<open>int(num_steps * x)\<close> multiplies in binary64 when
  \<open>x\<close> is a float and exactly when it is an integer.
\<close>

datatype number = PyInt int | PyFloat pyfloat

datatype replace_steps = Fraction pyfloat | Window number number

definition window_numbers :: "replace_steps \<Rightarrow> number \<times> number" where
  "window_numbers srs = (case srs of Fraction f \<Rightarrow> (PyInt 0, PyFloat f) | Window a b \<Rightarrow> (a, b))"

definition window_bound :: "int \<Rightarrow> number \<Rightarrow> error + int" where
  "window_bound num_steps x =
     (case x of
        PyInt i \<Rightarrow> Inr (num_steps * i)
      | PyFloat f \<Rightarrow>
          (case float_of_int num_steps of
             Inl e \<Rightarrow> Inl e
           | Inr n \<Rightarrow> int_of_float (float_mul n f)))"

definition self_replace_window :: "int \<Rightarrow> replace_steps \<Rightarrow> error + int \<times> int" where
  "self_replace_window num_steps srs =
     (case window_bound num_steps (fst (window_numbers srs)) of
        Inl e \<Rightarrow> Inl e
      | Inr lo \<Rightarrow>
          (case window_bound num_steps (snd (window_numbers srs)) of
             Inl e \<Rightarrow> Inl e
           | Inr hi \<Rightarrow> Inr (lo, hi)))"

definition edit_init :: "nat \<Rightarrow> int \<Rightarrow> mat list \<Rightarrow> replace_steps \<Rightarrow> local_blend option
    \<Rightarrow> edit_kind \<Rightarrow> error + edit_control" where
  "edit_init n_prompts num_steps alpha srs lb k =
     (case self_replace_window num_steps srs of
        Inl e \<Rightarrow> Inl e
      | Inr window \<Rightarrow>
          Inr \<lparr>cur_step = 0, num_att_layers = - 1, cur_att_layer = 0,
               step_store = get_empty_store, attention_store = None,
               batch_size = n_prompts, cross_replace_alpha = alpha,
               num_self_replace = window,
               local_blend = lb, kind = k\<rparr>)"

text \<open>Rectangular tensors: every matrix is \<open>p\<close> by \<open>k\<close>, every batch row has \<open>h\<close> of them.\<close>

definition rect3 :: "nat \<Rightarrow> nat \<Rightarrow> tensor3 \<Rightarrow> bool" where
  "rect3 p k t = list_all (\<lambda>m. length m = p \<and> list_all (\<lambda>v. length v = k) m) t"

definition rect4 :: "nat \<Rightarrow> nat \<Rightarrow> nat \<Rightarrow> tensor4 \<Rightarrow> bool" where
  "rect4 h p k t = list_all (\<lambda>x. length x = h \<and> rect3 p k x) t"

definition rect_words :: "nat \<Rightarrow> mat \<Rightarrow> bool" where
  "rect_words k w = list_all (\<lambda>a. length a = k) w"

text \<open>A tensor of shape \<open>(h, p, n)\<close> scaled along its token axis by a weight vector.\<close>

definition scale3 :: "tensor3 \<Rightarrow> vec \<Rightarrow> tensor3" where
  "scale3 t w = map (map (\<lambda>v. map2 (*) v w)) t"

text \<open>
  The Replace controller for two prompts of two tokens that the constructor returns for
  50 steps and \<open>self_replace_steps = 0.4\<close>, whose mapper swaps the tokens, with a schedule
  of one step; and a cross-attention tensor of one head and one query position per prompt.
\<close>

definition float_0_4 :: pyfloat where
  "float_0_4 = Finite 7205759403792794 (- 54)"

definition float_0_7 :: pyfloat where
  "float_0_7 = Finite 6305039478318694 (- 53)"

definition float_0_58 :: pyfloat where
  "float_0_58 = Finite 5224175567749775 (- 53)"

definition demo_edit :: edit_control where
  "demo_edit =
     \<lparr>cur_step = 0, num_att_layers = - 1, cur_att_layer = 0,
      step_store = get_empty_store, attention_store = None,
      batch_size = 2, cross_replace_alpha = [[[1, 1 / 2]]],
      num_self_replace = (0, 20),
      local_blend = None, kind = Replace [[[0, 1], [1, 0]]]\<rparr>"

definition demo_attn :: tensor3 where
  "demo_attn = [[[1, 0]], [[1 / 4, 3 / 4]]]"

text \<open>A self-attention tensor for two prompts with \<open>257\<close> query positions, above \<open>16 ** 2\<close>.\<close>

definition demo_attn_fine :: tensor3 where
  "demo_attn_fine = [replicate 257 [1, 0], replicate 257 [1 / 4, 3 / 4]]"

section \<open>The equalizer\<close>

text \<open>
  \<open>get_equalizer\<close> of the Stable Diffusion variant. The token positions of each selected
  word come from \<open>ptp_utils.get_word_inds\<close>, which is not part of these sources: they are
  the argument \<open>word_inds\<close>, one integer index array per word of \<open>word_select\<close>.
  \<open>equalizer[:, inds] = values\<close> first expands \<open>values\<close> along the selected columns (its
  extent must be their number or 1), then writes column by column; an index outside
  \<open>[-77, 77)\<close> is an \<open>IndexError\<close>.
\<close>

definition norm_index :: "nat \<Rightarrow> int \<Rightarrow> error + nat" where
  "norm_index n i =
     (if 0 \<le> i \<and> i < int n then Inr (nat i)
      else if - int n \<le> i \<and> i < 0 then Inr (nat (int n + i))
      else Inl IndexError)"

definition expand_values :: "nat \<Rightarrow> vec \<Rightarrow> error + vec" where
  "expand_values k vals =
     (if length vals = k then Inr vals
      else if length vals = 1 then Inr (replicate k (hd vals))
      else Inl RuntimeError)"

fun put_cols :: "vec \<Rightarrow> nat list \<Rightarrow> vec \<Rightarrow> vec" where
  "put_cols row (i # is) (v # vs) = put_cols (row[i := v]) is vs"
| "put_cols row is vs = row"

definition assign_columns :: "mat \<Rightarrow> int list \<Rightarrow> vec \<Rightarrow> error + mat" where
  "assign_columns equalizer inds vals =
     (case expand_values (length inds) vals of
        Inl e \<Rightarrow> Inl e
      | Inr src \<Rightarrow>
          (case mapM (norm_index 77) inds of
             Inl e \<Rightarrow> Inl e
           | Inr cols \<Rightarrow> Inr (map (\<lambda>row. put_cols row cols src) equalizer)))"

fun equalizer_loop :: "mat \<Rightarrow> int list list \<Rightarrow> vec \<Rightarrow> error + mat" where
  "equalizer_loop equalizer [] vals = Inr equalizer"
| "equalizer_loop equalizer (inds # rest) vals =
     (case assign_columns equalizer inds vals of
        Inl e \<Rightarrow> Inl e
      | Inr equalizer' \<Rightarrow> equalizer_loop equalizer' rest vals)"

definition get_equalizer :: "int list list \<Rightarrow> vec \<Rightarrow> error + mat" where
  "get_equalizer word_inds vals =
     equalizer_loop (replicate (length vals) (replicate 77 1)) word_inds vals"

text \<open>The token positions that the index arrays stand for.\<close>

definition resolved_position :: "int \<Rightarrow> nat" where
  "resolved_position i = (if i < 0 then nat (77 + i) else nat i)"

definition resolved :: "int list list \<Rightarrow> nat set" where
  "resolved word_inds = resolved_position ` (\<Union>inds \<in> set word_inds. set inds)"

definition valid_inds :: "int list list \<Rightarrow> bool" where
  "valid_inds word_inds = list_all (list_all (\<lambda>i. - 77 \<le> i \<and> i < 77)) word_inds"

text \<open>
  What \<open>AttentionReweight.replace_cross_attention\<close> scales: the source rows themselves,
  or what the previous controller makes of them.
\<close>

definition reweight_base :: "edit_kind option \<Rightarrow> tensor3 \<Rightarrow> tensor4 \<Rightarrow> error + tensor4" where
  "reweight_base prev attn_base att_replace =
     (case prev of
        None \<Rightarrow> Inr [attn_base]
      | Some c \<Rightarrow> replace_cross_attention c attn_base att_replace)"

text \<open>An equalizer row: \<open>v\<close> at the positions \<open>S\<close>, 1 elsewhere.\<close>

definition eq_row :: "nat set \<Rightarrow> real \<Rightarrow> vec \<Rightarrow> bool" where
  "eq_row S v row = (length row = 77 \<and> (\<forall>n < 77. row ! n = (if n \<in> S then v else 1)))"

definition demo_base :: tensor3 where
  "demo_base = [[replicate 77 (1 / 4)]]"

text \<open>
  A cross-attention tensor for three prompts of two tokens, one head and one query
  position each, and a schedule entry that takes the candidate everywhere.
\<close>

definition demo_attn3 :: tensor3 where
  "demo_attn3 = [[[1 / 2, 1 / 2]], [[1 / 4, 3 / 4]], [[3 / 4, 1 / 4]]]"

definition demo_alpha3 :: "mat list" where
  "demo_alpha3 = [[[1, 1], [1, 1]]]"

text \<open>
  The Reweight controller for three prompts that the constructor returns for 50 steps,
  \<open>self_replace_steps = 0.4\<close> and the equalizer \<open>eq\<close>, without a previous controller.
\<close>

definition demo_reweight :: "mat \<Rightarrow> edit_control" where
  "demo_reweight eq =
     \<lparr>cur_step = 0, num_att_layers = - 1, cur_att_layer = 0,
      step_store = get_empty_store, attention_store = None,
      batch_size = 3, cross_replace_alpha = demo_alpha3,
      num_self_replace = (0, 20),
      local_blend = None, kind = Reweight eq None\<rparr>"

section \<open>LocalBlend\<close>

definition MAX_NUM_WORDS :: nat where
  "MAX_NUM_WORDS = 77"

text \<open>
  \<open>item.reshape(alpha_layers.shape[0], -1, 1, 16, 16, MAX_NUM_WORDS)\<close>: the entries in
  row-major order, cut into \<open>n\<close> prompts, as many heads as that leaves (none, when there
  are no entries), 16 rows, 16 columns and the words. The axis of extent 1 is left out.
  The library refuses the reshape when the entries do not divide evenly or \<open>n\<close> is 0.
\<close>

type_synonym maps5 = "real list list list list list"

definition reshape_maps :: "nat \<Rightarrow> tensor3 \<Rightarrow> error + maps5" where
  "reshape_maps n item =
     (let flat = concat (concat item);
          unit = 16 * 16 * MAX_NUM_WORDS
      in if n = 0 \<or> length flat mod (n * unit) \<noteq> 0 then Inl RuntimeError
         else Inr (map (\<lambda>block.
                      map (\<lambda>head. map (split_batch 16 MAX_NUM_WORDS)
                                      (split_batch 16 (16 * MAX_NUM_WORDS) head))
                          (split_batch (length flat div (n * unit)) unit block))
                   (split_batch n (length flat div n) flat)))"

text \<open>\<open>torch.cat(maps, dim=1)\<close>: the heads of all items, prompt by prompt; no items is an error.\<close>

definition cat_heads :: "nat \<Rightarrow> maps5 list \<Rightarrow> error + maps5" where
  "cat_heads n items =
     (if items = [] then Inl RuntimeError
      else Inr (map (\<lambda>b. concat (map (\<lambda>item. item ! b) items)) [0..<n]))"

text \<open>
  \<open>(maps * alpha_layers).sum(-1)\<close>: per prompt, the words weighted and summed. The word
  axis of \<open>alpha_layers\<close> has to have the extent of the maps' or 1, heads or no heads.
\<close>

definition dot :: "vec \<Rightarrow> vec \<Rightarrow> error + real" where
  "dot v w = (case bzip (\<lambda>x y. Inr (x * y)) v w of Inl e \<Rightarrow> Inl e | Inr ps \<Rightarrow> Inr (sum_list ps))"

definition word_sum :: "maps5 \<Rightarrow> mat \<Rightarrow> error + tensor4" where
  "word_sum maps alpha =
     bzip (\<lambda>m a. if length a \<noteq> MAX_NUM_WORDS \<and> length a \<noteq> 1 then Inl RuntimeError
                 else mapM (mapM (mapM (\<lambda>v. dot v a))) m) maps alpha"

text \<open>\<open>.mean(1)\<close> over the heads of one prompt, on the 16 by 16 grid.\<close>

definition mean_heads :: "tensor3 \<Rightarrow> mat" where
  "mean_heads s =
     map (\<lambda>i. map (\<lambda>j. sum_list (map (\<lambda>a. a ! i ! j) s) / real (length s)) [0..<16]) [0..<16]"

text \<open>
  The first lines of \<open>LocalBlend.__call__\<close>, which the two variants share once the items
  are selected: the saliency map of every prompt.
\<close>

definition word_maps :: "mat \<Rightarrow> tensor3 list \<Rightarrow> error + tensor3" where
  "word_maps alpha items =
     (case mapM (reshape_maps (length alpha)) items of
        Inl e \<Rightarrow> Inl e
      | Inr reshaped \<Rightarrow>
          (case cat_heads (length alpha) reshaped of
             Inl e \<Rightarrow> Inl e
           | Inr maps \<Rightarrow>
               (case word_sum maps alpha of
                  Inl e \<Rightarrow> Inl e
                | Inr s \<Rightarrow> Inr (map mean_heads s))))"

text \<open>
  \<open>max_pool2d\<close> with a 3 by 3 kernel, stride 1 and padding 1: the largest entry among a
  position and its neighbours inside the map.
\<close>

definition window :: "nat \<Rightarrow> nat \<Rightarrow> nat list" where
  "window i n = filter (\<lambda>q. q < n) [i - 1 ..< i + 2]"

definition maximum :: "real list \<Rightarrow> real" where
  "maximum xs = foldl max (hd xs) (tl xs)"

definition max_pool2d :: "mat \<Rightarrow> mat" where
  "max_pool2d m =
     map (\<lambda>i. map (\<lambda>j. maximum (concat (map (\<lambda>i'. map (\<lambda>j'. m ! i' ! j') (window j (length (m ! i))))
                                               (window i (length m)))))
                   [0..<length (m ! i)])
         [0..<length m]"

text \<open>
  \<open>interpolate\<close> to \<open>H\<close> by \<open>W\<close> in its default mode, nearest neighbour. Which source index
  the library reads for an output index, given the two extents, is the argument
  \<open>nearest\<close>; \<open>nearest_exact\<close> is \<open>floor(i * n_in / n_out)\<close>.
\<close>

definition interpolate :: "(nat \<Rightarrow> nat \<Rightarrow> nat \<Rightarrow> nat) \<Rightarrow> nat \<Rightarrow> nat \<Rightarrow> mat \<Rightarrow> mat" where
  "interpolate nearest H W m =
     map (\<lambda>i. map (\<lambda>j. m ! nearest i (length m) H ! nearest j (extent1 m) W) [0..<W]) [0..<H]"

definition nearest_exact :: "nat \<Rightarrow> nat \<Rightarrow> nat \<Rightarrow> nat" where
  "nearest_exact i n_in n_out = i * n_in div n_out"

text \<open>
  \<open>mask / mask.max(2, keepdims=True)[0].max(3, keepdims=True)[0]\<close> and
  \<open>.gt(threshold)\<close>, for one prompt. A division by zero is not an exception in the tensor
  library: the quotient is an infinity or, for \<open>0 / 0\<close>, not a number, and neither \<open>-inf\<close>
  nor a NaN is greater than anything. The maximum of a map without entries is an error.
\<close>

datatype quotient = Quot real | PlusInf | MinusInf | NotANumber

definition fdiv :: "real \<Rightarrow> real \<Rightarrow> quotient" where
  "fdiv x d =
     (if d \<noteq> 0 then Quot (x / d)
      else if 0 < x then PlusInf else if x < 0 then MinusInf else NotANumber)"

definition fgt :: "quotient \<Rightarrow> real \<Rightarrow> bool" where
  "fgt q t = (case q of Quot x \<Rightarrow> t < x | PlusInf \<Rightarrow> True | MinusInf \<Rightarrow> False | NotANumber \<Rightarrow> False)"

definition map_max :: "mat \<Rightarrow> real" where
  "map_max m = maximum (map (\<lambda>j. maximum (map (\<lambda>row. row ! j) m)) [0..<extent1 m])"

definition normalize_gt :: "real \<Rightarrow> mat \<Rightarrow> error + bool list list" where
  "normalize_gt thr m =
     (if m = [] \<or> extent1 m = 0 then Inl RuntimeError
      else Inr (map (map (\<lambda>x. fgt (fdiv x (map_max m)) thr)) m))"

text \<open>
  When the selected items hold no head at all, the mean is taken over nothing and every
  entry of the maps is a NaN, which stays one through the max-pool, the resize and the
  division and is not greater than the threshold. The maps of the model hold no NaN:
  \<open>no_heads\<close> says when their entries stand for one, and the comparison is then false
  everywhere.
\<close>

definition no_heads :: "tensor3 list \<Rightarrow> bool" where
  "no_heads items = list_all (\<lambda>item. concat (concat item) = []) items"

definition nan_gt :: "mat \<Rightarrow> error + bool list list" where
  "nan_gt m =
     (if m = [] \<or> extent1 m = 0 then Inl RuntimeError
      else Inr (map (map (\<lambda>x. False)) m))"

definition threshold_maps :: "real \<Rightarrow> bool \<Rightarrow> tensor3 \<Rightarrow> error + bool list list list" where
  "threshold_maps thr nan resized =
     (if nan then mapM nan_gt resized else mapM (normalize_gt thr) resized)"

text \<open>
  The union of the per-prompt masks: \<open>mask[:1] + mask[1:]\<close> in the Stable Diffusion
  variant, \<open>mask[:1] + mask\<close> in the LDM variant; \<open>+\<close> on Booleans is \<open>or\<close>, and
  \<open>.float()\<close> makes them 1 and 0.
\<close>

definition or2 :: "bool list list \<Rightarrow> bool list list \<Rightarrow> bool list list" where
  "or2 a b = map2 (map2 (\<or>)) a b"

definition union_stable :: "bool list list list \<Rightarrow> error + bool list list list" where
  "union_stable bs = bzip (\<lambda>a b. Inr (or2 a b)) (take 1 bs) (drop 1 bs)"


definition to_float :: "bool \<Rightarrow> real" where
  "to_float b = (if b then 1 else 0)"

text \<open>
  \<open>x_t[:1] + mask * (x_t - x_t[:1])\<close> for a latent batch of shape \<open>(n, c, H, W)\<close> and a mask
  of shape \<open>(n', 1, H, W)\<close>, whose unit axis is left out: the batch axes broadcast, the mask
  is repeated for every channel.
\<close>

definition blend :: "tensor4 \<Rightarrow> tensor3 \<Rightarrow> error + tensor4" where
  "blend x_t msk =
     (case bzip (\<lambda>x s. Inr (map2 (map2 (map2 (-))) x s)) x_t (take 1 x_t) of
        Inl e \<Rightarrow> Inl e
      | Inr diff \<Rightarrow>
          (case bzip (\<lambda>m d. Inr (map (\<lambda>channel. map2 (map2 (*)) m channel) d)) msk diff of
             Inl e \<Rightarrow> Inl e
           | Inr masked \<Rightarrow>
               bzip (\<lambda>s q. Inr (map2 (map2 (map2 (+))) s q)) (take 1 x_t) masked))"

text \<open>\<open>x_t.shape[2:]\<close> of a latent batch with at least one row and one channel.\<close>

definition latent_height :: "tensor4 \<Rightarrow> nat" where
  "latent_height x_t = length (hd (hd x_t))"

definition latent_width :: "tensor4 \<Rightarrow> nat" where
  "latent_width x_t = length (hd (hd (hd x_t)))"

text \<open>
  \<open>LocalBlend.__call__\<close> of the Stable Diffusion variant: the resized maps before the
  normalisation, the mask, and the call as a whole. The store is the dictionary with its
  six keys.
\<close>

definition select_stable :: "store \<Rightarrow> tensor3 list" where
  "select_stable s = take 2 (drop 2 (s (Down, True))) @ take 3 (s (Up, True))"

definition saliency_stable :: "(nat \<Rightarrow> nat \<Rightarrow> nat \<Rightarrow> nat) \<Rightarrow> local_blend \<Rightarrow> tensor4 \<Rightarrow> store
    \<Rightarrow> error + tensor3" where
  "saliency_stable nearest lb x_t s =
     (case word_maps (alpha_layers lb) (select_stable s) of
        Inl e \<Rightarrow> Inl e
      | Inr maps \<Rightarrow>
          (let pooled = map max_pool2d maps
           in Inr (map (interpolate nearest (latent_height x_t) (latent_width x_t)) pooled)))"

definition mask_stable :: "(nat \<Rightarrow> nat \<Rightarrow> nat \<Rightarrow> nat) \<Rightarrow> local_blend \<Rightarrow> tensor4 \<Rightarrow> store
    \<Rightarrow> error + tensor3" where
  "mask_stable nearest lb x_t s =
     (case saliency_stable nearest lb x_t s of
        Inl e \<Rightarrow> Inl e
      | Inr resized \<Rightarrow>
          (case threshold_maps (threshold lb) (no_heads (select_stable s)) resized of
             Inl e \<Rightarrow> Inl e
           | Inr bs \<Rightarrow>
               (case union_stable bs of
                  Inl e \<Rightarrow> Inl e
                | Inr u \<Rightarrow> Inr (map (map (map to_float)) u))))"

definition local_blend_stable :: "(nat \<Rightarrow> nat \<Rightarrow> nat \<Rightarrow> nat) \<Rightarrow> local_blend \<Rightarrow> tensor4 \<Rightarrow> store
    \<Rightarrow> error + tensor4" where
  "local_blend_stable nearest lb x_t s =
     (case mask_stable nearest lb x_t s of
        Inl e \<Rightarrow> Inl e
      | Inr msk \<Rightarrow> blend x_t msk)"

text \<open>
  \<open>LocalBlend.__call__\<close> of the LDM variant: other items of the store, the resize reads
  the maps and not their max-pool, and the union keeps one row per prompt.
\<close>

definition select_ldm :: "store \<Rightarrow> tensor3 list" where
  "select_ldm s = take 2 (s (Down, True)) @ take 3 (drop 3 (s (Up, True)))"

definition saliency_ldm :: "(nat \<Rightarrow> nat \<Rightarrow> nat \<Rightarrow> nat) \<Rightarrow> local_blend \<Rightarrow> tensor4 \<Rightarrow> store
    \<Rightarrow> error + tensor3" where
  "saliency_ldm nearest lb x_t s =
     (case word_maps (alpha_layers lb) (select_ldm s) of
        Inl e \<Rightarrow> Inl e
      | Inr maps \<Rightarrow>
          Inr (map (interpolate nearest (latent_height x_t) (latent_width x_t)) maps))"



text \<open>
  A store entry for \<open>n\<close> prompts with one head, the 16 by 16 positions and the 77 words,
  every entry \<open>c\<close>; a blend for \<open>n\<close> prompts that tracks the first word of each, with the
  default threshold; a store whose only cross-attention entry is in the up blocks; and
  latent batches of one channel, one row and two columns.
\<close>

definition demo_item :: "nat \<Rightarrow> real \<Rightarrow> tensor3" where
  "demo_item n c = replicate (n * 1) (replicate 256 (replicate 77 c))"

definition demo_blend :: "nat \<Rightarrow> local_blend" where
  "demo_blend n = \<lparr>alpha_layers = replicate n (1 # replicate 76 0), threshold = 3 / 10\<rparr>"

definition demo_blend_store :: "nat \<Rightarrow> real \<Rightarrow> store" where
  "demo_blend_store n c = get_empty_store((Up, True) := [demo_item n c])"

definition demo_latent1 :: tensor4 where
  "demo_latent1 = [[[[1, 2]]]]"

definition demo_latent2 :: tensor4 where
  "demo_latent2 = [[[[1, 2]]], [[[3, 4]]]]"

definition demo_latent3 :: tensor4 where
  "demo_latent3 = [[[[1, 2]]], [[[3, 4]]], [[[5, 6]]]]"



section \<open>Properties of the hook counters\<close>

lemma forward_keepsD:
  "forward_keeps_counters fwd \<Longrightarrow> fwd st attn c p = Inr (st', out) \<Longrightarrow> counters st' = counters st"
  unfolding forward_keeps_counters_def by blast

lemma between_keepsD:
  "between_keeps_counters btw \<Longrightarrow> btw st = Inr st' \<Longrightarrow> counters st' = counters st"
  unfolding between_keeps_counters_def by blast

lemma run_forward_counters:
  assumes "forward_keeps_counters fwd" "run_forward lr fwd st attn c p = Inr (st1, out)"
  shows "counters st1 = counters st"
  using assms(2) forward_keepsD[OF assms(1)] unfolding run_forward_def
  by (auto simp: Let_def split: if_splits sum.splits prod.splits)

lemma advance_counters:
  assumes "between_keeps_counters btw" "advance lr btw st = Inr st'"
  shows "num_att_layers st' = num_att_layers st"
    and "cur_att_layer st + 1 = layers_per_step lr st \<Longrightarrow>
           cur_att_layer st' = 0 \<and> cur_step st' = cur_step st + 1"
    and "cur_att_layer st + 1 \<noteq> layers_per_step lr st \<Longrightarrow>
           cur_att_layer st' = cur_att_layer st + 1 \<and> cur_step st' = cur_step st"
  using assms(2) between_keepsD[OF assms(1)] unfolding advance_def layers_per_step_def
    num_uncond_att_layers_def counters_def
  by (fastforce simp: Let_def split: if_splits)+

lemma call_counters:
  assumes "forward_keeps_counters fwd" "between_keeps_counters btw"
    "call lr fwd btw st attn c p = Inr (st', out)"
  shows "num_att_layers st' = num_att_layers st"
    and "cur_att_layer st + 1 = layers_per_step lr st \<Longrightarrow>
           cur_att_layer st' = 0 \<and> cur_step st' = cur_step st + 1"
    and "cur_att_layer st + 1 \<noteq> layers_per_step lr st \<Longrightarrow>
           cur_att_layer st' = cur_att_layer st + 1 \<and> cur_step st' = cur_step st"
proof -
  from assms(3) obtain st1 where r: "run_forward lr fwd st attn c p = Inr (st1, out)"
    and a: "advance lr btw st1 = Inr st'"
    unfolding call_def by (auto split: sum.splits prod.splits)
  from run_forward_counters[OF assms(1) r] have c: "cur_step st1 = cur_step st"
    "num_att_layers st1 = num_att_layers st" "cur_att_layer st1 = cur_att_layer st"
    by (simp_all add: counters_def)
  have l: "layers_per_step lr st1 = layers_per_step lr st"
    using c by (simp add: layers_per_step_def num_uncond_att_layers_def)
  show "num_att_layers st' = num_att_layers st"
    using advance_counters(1)[OF assms(2) a] c by simp
  show "cur_att_layer st + 1 = layers_per_step lr st \<Longrightarrow>
           cur_att_layer st' = 0 \<and> cur_step st' = cur_step st + 1"
    using advance_counters(2)[OF assms(2) a] c l by simp
  show "cur_att_layer st + 1 \<noteq> layers_per_step lr st \<Longrightarrow>
           cur_att_layer st' = cur_att_layer st + 1 \<and> cur_step st' = cur_step st"
    using advance_counters(3)[OF assms(2) a] c l by simp
qed

text \<open>The invariant of a session, for any start within a step.\<close>

lemma session_counters:
  assumes fk: "forward_keeps_counters fwd" and bk: "between_keeps_counters btw"
  shows "session lr fwd btw st calls = Inr st' \<Longrightarrow>
         1 \<le> layers_per_step lr st \<Longrightarrow> 0 \<le> cur_att_layer st \<Longrightarrow>
         cur_att_layer st < layers_per_step lr st \<Longrightarrow>
         layers_per_step lr st' = layers_per_step lr st \<and>
         0 \<le> cur_att_layer st' \<and> cur_att_layer st' < layers_per_step lr st \<and>
         cur_step st' * layers_per_step lr st + cur_att_layer st' =
           cur_step st * layers_per_step lr st + cur_att_layer st + int (length calls)"
proof (induction calls arbitrary: st)
  case Nil
  then show ?case by simp
next
  case (Cons x rest)
  obtain attn c p where x: "x = (attn, c, p)" by (cases x) auto
  from Cons.prems(1) obtain st1 out where c1: "call lr fwd btw st attn c p = Inr (st1, out)"
    and s: "session lr fwd btw st1 rest = Inr st'"
    by (auto simp: x split: sum.splits prod.splits)
  note cc = call_counters[OF fk bk c1]
  have l: "layers_per_step lr st1 = layers_per_step lr st"
    using cc(1) by (simp add: layers_per_step_def num_uncond_att_layers_def)
  show ?case
  proof (cases "cur_att_layer st + 1 = layers_per_step lr st")
    case True
    with cc(2) have v: "cur_att_layer st1 = 0" "cur_step st1 = cur_step st + 1" by simp_all
    from Cons.IH[OF s] Cons.prems(2) l v
    have "layers_per_step lr st' = layers_per_step lr st1 \<and>
         0 \<le> cur_att_layer st' \<and> cur_att_layer st' < layers_per_step lr st1 \<and>
         cur_step st' * layers_per_step lr st1 + cur_att_layer st' =
           cur_step st1 * layers_per_step lr st1 + cur_att_layer st1 + int (length rest)"
      by simp
    then show ?thesis using l v True by (simp add: algebra_simps)
  next
    case False
    with cc(3) have v: "cur_att_layer st1 = cur_att_layer st + 1" "cur_step st1 = cur_step st" by simp_all
    from Cons.IH[OF s] Cons.prems l v False
    have "layers_per_step lr st' = layers_per_step lr st1 \<and>
         0 \<le> cur_att_layer st' \<and> cur_att_layer st' < layers_per_step lr st1 \<and>
         cur_step st' * layers_per_step lr st1 + cur_att_layer st' =
           cur_step st1 * layers_per_step lr st1 + cur_att_layer st1 + int (length rest)"
      by simp
    then show ?thesis using l v by (simp add: algebra_simps)
  qed
qed

lemma session_take:
  "session lr fwd btw st calls = Inr st' \<Longrightarrow> \<exists>sk. session lr fwd btw st (take k calls) = Inr sk"
proof (induction calls arbitrary: st k)
  case Nil then show ?case by simp
next
  case (Cons x rest)
  obtain attn c p where x: "x = (attn, c, p)" by (cases x) auto
  show ?case
  proof (cases k)
    case 0 then show ?thesis by simp
  next
    case (Suc j)
    from Cons.prems obtain st1 out where c1: "call lr fwd btw st attn c p = Inr (st1, out)"
      and s: "session lr fwd btw st1 rest = Inr st'"
      by (auto simp: x split: sum.splits prod.splits)
    from Cons.IH[OF s, of j] show ?thesis using c1 by (simp add: x Suc)
  qed
qed

lemma divmod_unique:
  fixes q r n L :: int
  assumes "0 \<le> r" "r < L" "q * L + r = n"
  shows "q = n div L \<and> r = n mod L"
  using assms
  by (metis add.commute div_mult_self2 div_pos_pos_trivial mod_mult_self3 mod_pos_pos_trivial
      mult.commute add_0 less_le_not_le)


lemma empty_forward_keeps: "forward_keeps_counters empty_forward"
  by (simp add: forward_keeps_counters_def empty_forward_def)

lemma between_default_keeps: "between_keeps_counters between_steps_default"
  by (simp add: between_keeps_counters_def between_steps_default_def)

lemma session_append:
  "session lr fwd btw st (xs @ ys) =
     (case session lr fwd btw st xs of Inl e \<Rightarrow> Inl e | Inr s \<Rightarrow> session lr fwd btw s ys)"
proof (induction xs arbitrary: st)
  case Nil then show ?case by simp
next
  case (Cons x xs)
  obtain attn c p where x: "x = (attn, c, p)" by (cases x) auto
  show ?case using Cons.IH by (simp add: x split: sum.splits prod.splits)
qed

lemma wrap_iff:
  fixes k L :: int
  assumes "1 \<le> L" "0 \<le> k"
  shows "k mod L + 1 = L \<longleftrightarrow> (k + 1) mod L = 0"
    and "(k + 1) mod L = 0 \<Longrightarrow> k div L + 1 = (k + 1) div L"
proof -
  have b: "0 \<le> k mod L" "k mod L < L" using assms by simp_all
  have e: "k + 1 = (k div L) * L + (k mod L + 1)" by simp
  show "k mod L + 1 = L \<longleftrightarrow> (k + 1) mod L = 0"
  proof
    assume "k mod L + 1 = L"
    then have "k + 1 = (k div L + 1) * L" using e by (simp add: algebra_simps)
    then show "(k + 1) mod L = 0" by simp
  next
    assume z: "(k + 1) mod L = 0"
    have "(k + 1) mod L = (k mod L + 1) mod L" by (simp add: mod_add_left_eq)
    with z have "(k mod L + 1) mod L = 0" by simp
    then have "L dvd (k mod L + 1)" by (simp add: dvd_eq_mod_eq_0)
    then obtain q where q: "k mod L + 1 = L * q" by (auto simp: dvd_def)
    have "0 < L * q" using q b by linarith
    then have "0 < q" using assms(1) by (simp add: zero_less_mult_iff)
    moreover have "L * q \<le> L" using q b by linarith
    then have "q \<le> 1" using assms(1) by simp
    ultimately have "q = 1" by linarith
    with q show "k mod L + 1 = L" by simp
  qed
  then have "(k + 1) mod L = 0 \<Longrightarrow> k + 1 = (k div L + 1) * L"
    using e by (simp add: algebra_simps)
  then show "(k + 1) mod L = 0 \<Longrightarrow> k div L + 1 = (k + 1) div L"
    using assms(1) by (metis nonzero_mult_div_cancel_right not_one_le_zero)
qed

lemma session_single:
  "session lr fwd btw st [(attn, c, p)] =
     (case run_forward lr fwd st attn c p of
        Inl e \<Rightarrow> Inl e
      | Inr (s1, out) \<Rightarrow> advance lr btw s1)"
  by (simp add: call_def split: sum.splits prod.splits)

lemma advance_unfold:
  "advance lr btw st =
     (if cur_att_layer st + 1 = layers_per_step lr st
      then btw (st\<lparr>cur_att_layer := 0, cur_step := cur_step st + 1\<rparr>)
      else Inr (st\<lparr>cur_att_layer := cur_att_layer st + 1\<rparr>))"
  by (simp add: advance_def layers_per_step_def num_uncond_att_layers_def Let_def)


lemma no_wrap_mod:
  fixes k L :: int
  assumes "1 \<le> L" "0 \<le> k" "k mod L + 1 \<noteq> L"
  shows "(k + 1) mod L = k mod L + 1"
proof -
  have b: "0 \<le> k mod L" "k mod L < L" using assms by simp_all
  then have "k mod L + 1 < L" using assms(3) by linarith
  then have "(k mod L + 1) mod L = k mod L + 1" using b by simp
  then show ?thesis by (simp add: mod_add_left_eq)
qed

lemma store_between_keeps: "between_keeps_counters store_between_steps"
  by (auto simp: between_keeps_counters_def store_between_steps_def counters_def
      split: option.splits sum.splits)

lemma merge_empty: "merge_keys get_empty_store get_empty_store region_keys = Inr get_empty_store"
  by (simp add: region_keys_def get_empty_store_def) (simp add: fun_eq_iff)

text \<open>
  C3. A session of exactly \<open>num_steps\<close> passes of \<open>layers_per_step\<close> hook calls, started
  from reset counters: after every hook call (every prefix of the session) the layer
  counter is below the per-step layer count and equals the number of calls so far modulo
  that count, the step counter is the number of completed passes and never exceeds
  \<open>num_steps\<close>, and at the end the step counter is exactly \<open>num_steps\<close> with the layer
  counter back at 0. The end-of-step hook runs exactly at the wrap: when the number of
  calls made reaches a multiple of the per-step layer count, the state after the call is
  what \<open>between_steps\<close> returns on the state that \<open>forward\<close> left, with the layer counter
  zeroed and the step counter incremented; after any other call it is the state that
  \<open>forward\<close> left with the layer counter incremented, and the hook has no part in it.
\<close>

theorem counters_track_session:
  assumes fk: "forward_keeps_counters fwd" and bk: "between_keeps_counters btw"
    and start: "cur_step st0 = 0" "cur_att_layer st0 = 0"
    and layers: "1 \<le> layers_per_step lr st0"
    and run: "session lr fwd btw st0 calls = Inr st_end"
    and total: "int (length calls) = num_steps * layers_per_step lr st0"
  shows "cur_step st_end = num_steps \<and> cur_att_layer st_end = 0 \<and>
         (\<forall>k \<le> length calls. \<exists>sk. session lr fwd btw st0 (take k calls) = Inr sk \<and>
             0 \<le> cur_att_layer sk \<and> cur_att_layer sk < layers_per_step lr st0 \<and>
             cur_att_layer sk = int k mod layers_per_step lr st0 \<and>
             cur_step sk = int k div layers_per_step lr st0 \<and>
             cur_step sk \<le> num_steps) \<and>
         (\<forall>k < length calls. \<exists>sk s1 out.
             session lr fwd btw st0 (take k calls) = Inr sk \<and>
             run_forward lr fwd sk (fst (calls ! k)) (fst (snd (calls ! k))) (snd (snd (calls ! k)))
               = Inr (s1, out) \<and>
             session lr fwd btw st0 (take (Suc k) calls) =
               (if (int k + 1) mod layers_per_step lr st0 = 0
                then btw (s1\<lparr>cur_att_layer := 0,
                              cur_step := (int k + 1) div layers_per_step lr st0\<rparr>)
                else Inr (s1\<lparr>cur_att_layer := (int k + 1) mod layers_per_step lr st0\<rparr>)))"
proof -
  let ?L = "layers_per_step lr st0"
  have inv: "0 \<le> cur_att_layer sk \<and> cur_att_layer sk < ?L \<and>
             cur_att_layer sk = int (length cs) mod ?L \<and> cur_step sk = int (length cs) div ?L \<and>
             layers_per_step lr sk = ?L"
    if "session lr fwd btw st0 cs = Inr sk" for cs sk
  proof -
    from session_counters[OF fk bk that] layers start
    have a: "0 \<le> cur_att_layer sk" "cur_att_layer sk < ?L"
      "cur_step sk * ?L + cur_att_layer sk = int (length cs)"
      and l: "layers_per_step lr sk = ?L"
      by simp_all
    from divmod_unique[OF a] a(1,2) l show ?thesis by simp
  qed
  have fin: "cur_step st_end = num_steps \<and> cur_att_layer st_end = 0"
    using inv[OF run] total layers by simp
  have pre: "\<exists>sk. session lr fwd btw st0 (take k calls) = Inr sk \<and>
             0 \<le> cur_att_layer sk \<and> cur_att_layer sk < ?L \<and>
             cur_att_layer sk = int k mod ?L \<and> cur_step sk = int k div ?L \<and>
             cur_step sk \<le> num_steps" if k: "k \<le> length calls" for k
  proof -
    from session_take[OF run, of k] obtain sk
      where sk: "session lr fwd btw st0 (take k calls) = Inr sk" by blast
    have len: "length (take k calls) = k" using k by simp
    from inv[OF sk] len have i: "0 \<le> cur_att_layer sk" "cur_att_layer sk < ?L"
      "cur_att_layer sk = int k mod ?L" "cur_step sk = int k div ?L" by simp_all
    have "int k \<le> num_steps * ?L" using k total by linarith
    then have "int k div ?L \<le> (num_steps * ?L) div ?L"
      using layers by (intro zdiv_mono1) simp_all
    then have "cur_step sk \<le> num_steps" using i(4) layers by simp
    with sk i show ?thesis by blast
  qed
  have hook: "\<exists>sk s1 out.
             session lr fwd btw st0 (take k calls) = Inr sk \<and>
             run_forward lr fwd sk (fst (calls ! k)) (fst (snd (calls ! k))) (snd (snd (calls ! k)))
               = Inr (s1, out) \<and>
             session lr fwd btw st0 (take (Suc k) calls) =
               (if (int k + 1) mod ?L = 0
                then btw (s1\<lparr>cur_att_layer := 0, cur_step := (int k + 1) div ?L\<rparr>)
                else Inr (s1\<lparr>cur_att_layer := (int k + 1) mod ?L\<rparr>))"
    if k: "k < length calls" for k
  proof -
    obtain attn c p where x: "calls ! k = (attn, c, p)" by (cases "calls ! k") auto
    from session_take[OF run, of k] obtain sk
      where sk: "session lr fwd btw st0 (take k calls) = Inr sk" by blast
    from session_take[OF run, of "Suc k"] obtain sk'
      where sk': "session lr fwd btw st0 (take (Suc k) calls) = Inr sk'" by blast
    have t: "take (Suc k) calls = take k calls @ [(attn, c, p)]"
      using k x by (simp add: take_Suc_conv_app_nth)
    have one: "session lr fwd btw st0 (take (Suc k) calls) =
        (case run_forward lr fwd sk attn c p of
           Inl e \<Rightarrow> Inl e
         | Inr (s1, out) \<Rightarrow> advance lr btw s1)"
      unfolding t session_append sk by (simp only: sum.case session_single)
    with sk' obtain s1 out where rf: "run_forward lr fwd sk attn c p = Inr (s1, out)"
      by (cases "run_forward lr fwd sk attn c p") auto
    have adv: "session lr fwd btw st0 (take (Suc k) calls) = advance lr btw s1"
      using one rf by simp
    have len: "length (take k calls) = k" using k by simp
    from inv[OF sk] len have i: "cur_att_layer sk = int k mod ?L" "cur_step sk = int k div ?L"
      "layers_per_step lr sk = ?L" by simp_all
    from run_forward_counters[OF fk rf] have c: "cur_step s1 = cur_step sk"
      "num_att_layers s1 = num_att_layers sk" "cur_att_layer s1 = cur_att_layer sk"
      by (simp_all add: counters_def)
    have l1: "layers_per_step lr s1 = ?L"
      using c i(3) by (simp add: layers_per_step_def num_uncond_att_layers_def split: if_splits)
    have k0: "0 \<le> int k" by simp
    show ?thesis
    proof (cases "(int k + 1) mod ?L = 0")
      case True
      then have w: "cur_att_layer s1 + 1 = layers_per_step lr s1"
        using wrap_iff(1)[OF layers k0] c i l1 by simp
      have d: "cur_step s1 + 1 = (int k + 1) div ?L"
        using wrap_iff(2)[OF layers k0 True] c i by simp
      have "advance lr btw s1 = btw (s1\<lparr>cur_att_layer := 0, cur_step := (int k + 1) div ?L\<rparr>)"
        unfolding advance_unfold using w d by simp
      with sk rf adv True show ?thesis by (simp add: x)
    next
      case False
      then have w: "cur_att_layer s1 + 1 \<noteq> layers_per_step lr s1"
        using wrap_iff(1)[OF layers k0] c i l1 by simp
      then have "int k mod ?L + 1 \<noteq> ?L" using c i l1 by simp
      from no_wrap_mod[OF layers k0 this]
      have d: "cur_att_layer s1 + 1 = (int k + 1) mod ?L" using c i by simp
      have "advance lr btw s1 = Inr (s1\<lparr>cur_att_layer := (int k + 1) mod ?L\<rparr>)"
        unfolding advance_unfold using w d by simp
      with sk rf adv False show ?thesis by (simp add: x)
    qed
  qed
  from fin pre hook show ?thesis by blast
qed

theorem counters_track_session_witness:
  "\<exists>st_end. session False empty_forward store_between_steps
       (init_store\<lparr>num_att_layers := 2\<rparr>) demo_calls = Inr st_end \<and>
     cur_step st_end = 2 \<and> cur_att_layer st_end = 0 \<and>
     session False empty_forward store_between_steps (init_store\<lparr>num_att_layers := 2\<rparr>)
         (take 2 demo_calls) =
       store_between_steps (init_store\<lparr>num_att_layers := 2, cur_att_layer := 0, cur_step := 1\<rparr>) \<and>
     store_between_steps (init_store\<lparr>num_att_layers := 2, cur_att_layer := 0, cur_step := 1\<rparr>) =
       Inr (init_store\<lparr>num_att_layers := 2, cur_step := 1, attention_store := Some get_empty_store\<rparr>)"
proof -
  let ?st0 = "init_store\<lparr>num_att_layers := 2\<rparr>"
  let ?calls = "demo_calls"
  have b1: "store_between_steps (?st0\<lparr>cur_att_layer := 0, cur_step := 1\<rparr>) =
      Inr (?st0\<lparr>cur_step := 1, attention_store := Some get_empty_store\<rparr>)"
    by (simp add: store_between_steps_def init_store_def)
  have b2: "store_between_steps (?st0\<lparr>cur_step := 2, attention_store := Some get_empty_store\<rparr>) =
      Inr (?st0\<lparr>cur_step := 2, attention_store := Some get_empty_store\<rparr>)"
    by (simp add: store_between_steps_def init_store_def merge_empty)
  have run: "session False empty_forward store_between_steps ?st0 demo_calls =
      Inr (?st0\<lparr>cur_step := 2, attention_store := Some get_empty_store\<rparr>)"
    using b1 b2
    by (simp add: demo_calls_def numeral_eq_Suc call_def run_forward_def advance_def
        empty_forward_def init_store_def
        num_uncond_att_layers_def assign3_def assign_mat_def assign_vec_def expand_into_def)
  have l: "layers_per_step False ?st0 = 2"
    by (simp add: layers_per_step_def num_uncond_att_layers_def)
  have s0: "cur_step ?st0 = 0" "cur_att_layer ?st0 = 0" by (simp_all add: init_store_def)
  have l1: "1 \<le> layers_per_step False ?st0" by (simp add: l)
  have tot: "int (length demo_calls) = 2 * layers_per_step False ?st0"
    by (simp add: l demo_calls_def)
  note t = counters_track_session[OF empty_forward_keeps store_between_keeps s0 l1 run tot]
  from t have e: "cur_step (?st0\<lparr>cur_step := 2, attention_store := Some get_empty_store\<rparr>) = 2"
    "cur_att_layer (?st0\<lparr>cur_step := 2, attention_store := Some get_empty_store\<rparr>) = 0"
    by blast+
  have k1: "(1::nat) < length demo_calls" by (simp add: demo_calls_def)
  from t have "\<forall>k < length demo_calls. \<exists>sk s1 out.
             session False empty_forward store_between_steps ?st0 (take k demo_calls) = Inr sk \<and>
             run_forward False empty_forward sk (fst (demo_calls ! k)) (fst (snd (demo_calls ! k)))
                (snd (snd (demo_calls ! k))) = Inr (s1, out) \<and>
             session False empty_forward store_between_steps ?st0 (take (Suc k) demo_calls) =
               (if (int k + 1) mod layers_per_step False ?st0 = 0
                then store_between_steps (s1\<lparr>cur_att_layer := 0,
                              cur_step := (int k + 1) div layers_per_step False ?st0\<rparr>)
                else Inr (s1\<lparr>cur_att_layer := (int k + 1) mod layers_per_step False ?st0\<rparr>))"
    by blast
  from this[rule_format, OF k1] obtain sk s1 out where
    sk: "session False empty_forward store_between_steps ?st0 (take 1 demo_calls) = Inr sk"
    and rf: "run_forward False empty_forward sk (fst (demo_calls ! 1)) (fst (snd (demo_calls ! 1)))
                (snd (snd (demo_calls ! 1))) = Inr (s1, out)"
    and h: "session False empty_forward store_between_steps ?st0 (take (Suc 1) demo_calls) =
               store_between_steps (s1\<lparr>cur_att_layer := 0, cur_step := 1\<rparr>)"
    by (auto simp: l)
  have "session False empty_forward store_between_steps ?st0 (take 1 demo_calls) =
      Inr (?st0\<lparr>cur_att_layer := 1\<rparr>)"
    by (simp add: demo_calls_def numeral_eq_Suc call_def run_forward_def advance_def
        empty_forward_def init_store_def
        num_uncond_att_layers_def assign3_def assign_mat_def assign_vec_def expand_into_def)
  with sk have skv: "sk = ?st0\<lparr>cur_att_layer := 1\<rparr>" by simp
  have "run_forward False empty_forward sk (fst (demo_calls ! 1)) (fst (snd (demo_calls ! 1)))
                (snd (snd (demo_calls ! 1))) = Inr (sk, fst (demo_calls ! 1))"
    unfolding skv
    by (simp add: demo_calls_def run_forward_def empty_forward_def init_store_def
        num_uncond_att_layers_def assign3_def assign_mat_def assign_vec_def expand_into_def)
  with rf have "s1 = sk" by simp
  with h skv have "session False empty_forward store_between_steps ?st0 (take 2 demo_calls) =
       store_between_steps (?st0\<lparr>cur_att_layer := 0, cur_step := 1\<rparr>)"
    by (simp add: numeral_2_eq_2)
  with run e b1 show ?thesis by simp
qed

section \<open>Properties of the attention store\<close>

lemma mapM_Inr: "(\<And>x. x \<in> set xs \<Longrightarrow> f x = Inr (g x)) \<Longrightarrow> mapM f xs = Inr (map g xs)"
  by (induction xs) auto

lemma expand_into_same:
  assumes "length src = length dest"
    and "\<And>d s. (d, s) \<in> set (zip dest src) \<Longrightarrow> f d s = Inr (g d s)"
  shows "expand_into f dest src = Inr (map2 g dest src)"
  unfolding expand_into_def using assms
  by (auto intro!: mapM_Inr)

lemma iadd_vec: "length a = length b \<Longrightarrow>
    expand_into (\<lambda>x y. Inr (x + y)) a b = Inr (map2 (+) a (b :: real list))"
  by (rule expand_into_same) auto

lemma iadd_mat:
  assumes "map length a = map length (b :: mat)"
  shows "expand_into (expand_into (\<lambda>x y. Inr (x + y))) a b = Inr (map2 (map2 (+)) a b)"
proof (rule expand_into_same)
  show "length b = length a" using assms by (metis length_map)
next
  fix d s assume "(d, s) \<in> set (zip a b)"
  then obtain i where i: "i < length a" "i < length b" "d = a ! i" "s = b ! i"
    by (auto simp: set_zip)
  have "length (a ! i) = length (b ! i)"
    using assms i(1,2) by (metis nth_map)
  then show "expand_into (\<lambda>x y. Inr (x + y)) d s = Inr (map2 (+) d s)"
    using i by (simp add: iadd_vec)
qed

lemma iadd3_same_shape:
  assumes "shape3 a = shape3 b"
  shows "iadd3 a b = Inr (add3 a b)"
  unfolding iadd3_def add3_def
proof (rule expand_into_same)
  show "length b = length a" using assms unfolding shape3_def by (metis length_map)
next
  fix d s assume "(d, s) \<in> set (zip a b)"
  then obtain i where i: "i < length a" "i < length b" "d = a ! i" "s = b ! i"
    by (auto simp: set_zip)
  have "map length (a ! i) = map length (b ! i)"
    using assms i(1,2) unfolding shape3_def by (metis nth_map)
  then show "expand_into (expand_into (\<lambda>x y. Inr (x + y))) d s = Inr (map2 (map2 (+)) d s)"
    using i by (simp add: iadd_mat)
qed

lemma shape3_add3: "shape3 a = shape3 b \<Longrightarrow> shape3 (add3 a b) = shape3 a"
proof -
  assume h: "shape3 a = shape3 b"
  have len: "length a = length b" using h unfolding shape3_def by (metis length_map)
  show ?thesis unfolding shape3_def add3_def
  proof (rule nth_equalityI)
    show "length (map (map length) (map2 (map2 (map2 (+))) a b)) = length (map (map length) a)"
      using len by simp
  next
    fix i assume "i < length (map (map length) (map2 (map2 (map2 (+))) a b))"
    then have i: "i < length a" "i < length b" using len by simp_all
    have e: "map length (a ! i) = map length (b ! i)"
      using h i unfolding shape3_def by (metis nth_map)
    then have l2: "length (a ! i) = length (b ! i)" by (metis length_map)
    have "map length (map2 (map2 (+)) (a ! i) (b ! i)) = map length (a ! i)"
    proof (rule nth_equalityI)
      show "length (map length (map2 (map2 (+)) (a ! i) (b ! i))) = length (map length (a ! i))"
        using l2 by simp
    next
      fix j assume "j < length (map length (map2 (map2 (+)) (a ! i) (b ! i)))"
      then have j: "j < length (a ! i)" "j < length (b ! i)" using l2 by simp_all
      have "length (a ! i ! j) = length (b ! i ! j)" using e j by (metis nth_map)
      then show "map length (map2 (map2 (+)) (a ! i) (b ! i)) ! j = map length (a ! i) ! j"
        using j by simp
    qed
    then show "map (map length) (map2 (map2 (map2 (+))) a b) ! i = map (map length) a ! i"
      using i by simp
  qed
qed

lemma add_items_same_shape:
  "map shape3 as = map shape3 ss \<Longrightarrow> add_items as ss = Inr (map2 add3 as ss)"
proof (induction as ss rule: add_items.induct)
  case (1 ss) then show ?case by simp
next
  case (2 a as) then show ?case by simp
next
  case (3 a as s ss)
  then show ?case by (simp add: iadd3_same_shape)
qed

lemma shape_map2_add3:
  "map shape3 as = map shape3 ss \<Longrightarrow> map shape3 (map2 add3 as ss) = map shape3 as"
proof (induction as arbitrary: ss)
  case Nil then show ?case by simp
next
  case (Cons a as)
  then obtain s ss' where ss: "ss = s # ss'" by (cases ss) auto
  with Cons show ?case by (simp add: shape3_add3)
qed

lemma merge_keys_same_shape:
  assumes "distinct ks" "\<And>k. k \<in> set ks \<Longrightarrow> map shape3 (acc k) = map shape3 (stp k)"
  shows "merge_keys acc stp ks =
         Inr (\<lambda>k. if k \<in> set ks then map2 add3 (acc k) (stp k) else acc k)"
  using assms
proof (induction ks arbitrary: acc)
  case Nil then show ?case by simp
next
  case (Cons k ks)
  have a: "add_items (acc k) (stp k) = Inr (map2 add3 (acc k) (stp k))"
    using Cons.prems(2) by (simp add: add_items_same_shape)
  let ?acc = "acc(k := map2 add3 (acc k) (stp k))"
  have "merge_keys ?acc stp ks =
      Inr (\<lambda>x. if x \<in> set ks then map2 add3 (?acc x) (stp x) else ?acc x)"
  proof (rule Cons.IH)
    show "distinct ks" using Cons.prems(1) by simp
  next
    fix x assume "x \<in> set ks"
    then have "x \<noteq> k" using Cons.prems(1) by auto
    then show "map shape3 (?acc x) = map shape3 (stp x)"
      using Cons.prems(2) \<open>x \<in> set ks\<close> by simp
  qed
  moreover have "(\<lambda>x. if x \<in> set ks then map2 add3 (?acc x) (stp x) else ?acc x)
      = (\<lambda>x. if x \<in> set (k # ks) then map2 add3 (acc x) (stp x) else acc x)"
    using Cons.prems(1) by (auto simp: fun_eq_iff)
  ultimately show ?case using a by simp
qed

lemma region_keys_all: "k \<in> set region_keys"
  by (cases k; rename_tac p b; case_tac p; case_tac b; simp add: region_keys_def)

lemma region_keys_distinct: "distinct region_keys"
  by (simp add: region_keys_def)

lemma shape_storeD:
  assumes "shape_store s = shape_store t"
  shows "map shape3 (s k) = map shape3 (t k)"
proof -
  have "k \<in> set region_keys" by (rule region_keys_all)
  then show ?thesis
    using assms unfolding shape_store_def by (metis (no_types, lifting) map_eq_conv)
qed

lemma shape_storeI:
  assumes "\<And>k. map shape3 (s k) = map shape3 (t k)"
  shows "shape_store s = shape_store t"
  unfolding shape_store_def by (rule map_cong[OF refl]) (rule assms)

lemma merge_all_keys:
  assumes "shape_store acc = shape_store stp"
  shows "merge_keys acc stp region_keys = Inr (add_store acc stp)"
proof -
  have "merge_keys acc stp region_keys =
      Inr (\<lambda>k. if k \<in> set region_keys then map2 add3 (acc k) (stp k) else acc k)"
    by (rule merge_keys_same_shape[OF region_keys_distinct]) (rule shape_storeD[OF assms])
  then show ?thesis by (simp add: region_keys_all add_store_def)
qed

lemma shape_add_store:
  assumes "shape_store acc = shape_store stp"
  shows "shape_store (add_store acc stp) = shape_store acc"
proof (rule shape_storeI)
  fix k
  show "map shape3 (add_store acc stp k) = map shape3 (acc k)"
    unfolding add_store_def by (rule shape_map2_add3) (rule shape_storeD[OF assms])
qed

lemma complete_step_first:
  "attention_store st = None \<Longrightarrow>
   complete_step st s = Inr (st\<lparr>cur_att_layer := 0, cur_step := cur_step st + 1,
      step_store := get_empty_store, attention_store := Some s\<rparr>)"
  by (simp add: complete_step_def store_between_steps_def)

lemma complete_step_next:
  "attention_store st = Some acc \<Longrightarrow> shape_store acc = shape_store s \<Longrightarrow>
   complete_step st s = Inr (st\<lparr>cur_att_layer := 0, cur_step := cur_step st + 1,
      step_store := get_empty_store, attention_store := Some (add_store acc s)\<rparr>)"
  by (simp add: complete_step_def store_between_steps_def merge_all_keys)

lemma complete_steps_accumulate:
  assumes "attention_store st = Some acc"
    and "\<And>s. s \<in> set ss \<Longrightarrow> shape_store s = shape_store acc"
  shows "\<exists>st'. complete_steps st ss = Inr st' \<and>
           cur_step st' = cur_step st + int (length ss) \<and>
           attention_store st' = Some (foldl add_store acc ss)"
  using assms
proof (induction ss arbitrary: st acc)
  case Nil then show ?case by simp
next
  case (Cons s ss)
  have sh: "shape_store acc = shape_store s" using Cons.prems(2)[of s] by simp
  let ?st1 = "st\<lparr>cur_att_layer := 0, cur_step := cur_step st + 1,
      step_store := get_empty_store, attention_store := Some (add_store acc s)\<rparr>"
  have c: "complete_step st s = Inr ?st1"
    using Cons.prems(1) sh by (rule complete_step_next)
  have "\<exists>st'. complete_steps ?st1 ss = Inr st' \<and>
           cur_step st' = cur_step ?st1 + int (length ss) \<and>
           attention_store st' = Some (foldl add_store (add_store acc s) ss)"
  proof (rule Cons.IH)
    show "attention_store ?st1 = Some (add_store acc s)" by simp
  next
    fix t assume "t \<in> set ss"
    then have "shape_store t = shape_store acc" using Cons.prems(2) by simp
    then show "shape_store t = shape_store (add_store acc s)"
      using shape_add_store[OF sh] by simp
  qed
  then show ?case using c by auto
qed

text \<open>
  C4. An AttentionStore that starts fresh and completes \<open>K = 1 + length ss\<close> timesteps
  whose scratch buffers \<open>s0, ss\<close> have one shape: the accumulator is the first scratch
  buffer with every later one added elementwise, \<open>cur_step\<close> is \<open>K\<close>, and
  \<open>get_average_attention\<close> is, for every region key and every position of its list, the
  accumulated tensor divided elementwise by \<open>K\<close>.
\<close>

theorem average_is_accumulator_over_steps:
  assumes fresh: "attention_store st = None" "cur_step st = 0"
    and shapes: "\<forall>s \<in> set ss. shape_store s = shape_store s0"
  shows "\<exists>st'. complete_steps st (s0 # ss) = Inr st' \<and>
           cur_step st' = int (length (s0 # ss)) \<and>
           attention_store st' = Some (foldl add_store s0 ss) \<and>
           get_average_attention st' =
             Some (\<lambda>key. map (\<lambda>item. div3 item (int (length (s0 # ss))))
                            (foldl add_store s0 ss key))"
proof -
  let ?st1 = "st\<lparr>cur_att_layer := 0, cur_step := cur_step st + 1,
      step_store := get_empty_store, attention_store := Some s0\<rparr>"
  have c: "complete_step st s0 = Inr ?st1" using fresh(1) by (rule complete_step_first)
  have "\<exists>st'. complete_steps ?st1 ss = Inr st' \<and>
           cur_step st' = cur_step ?st1 + int (length ss) \<and>
           attention_store st' = Some (foldl add_store s0 ss)"
    by (rule complete_steps_accumulate) (use shapes in simp_all)
  then obtain st' where st': "complete_steps ?st1 ss = Inr st'"
    "cur_step st' = cur_step ?st1 + int (length ss)"
    "attention_store st' = Some (foldl add_store s0 ss)" by blast
  have k: "cur_step st' = int (length (s0 # ss))" using st'(2) fresh(2) by simp
  have "get_average_attention st' =
      Some (\<lambda>key. map (\<lambda>item. div3 item (int (length (s0 # ss)))) (foldl add_store s0 ss key))"
    unfolding get_average_attention_def using st'(3) k by simp
  with c st' k show ?thesis by auto
qed

theorem average_is_accumulator_over_steps_witness:
  "\<exists>st' avg. complete_steps init_store [demo_store_a, demo_store_b] = Inr st' \<and>
     cur_step st' = 2 \<and> get_average_attention st' = Some avg \<and>
     avg (Down, True) = [[[[2, 3]]]] \<and> avg (Up, False) = []"
proof -
  have sh: "\<forall>s \<in> set [demo_store_b]. shape_store s = shape_store demo_store_a"
    by (simp add: shape_store_def region_keys_def shape3_def demo_store_a_def demo_store_b_def
        get_empty_store_def)
  from average_is_accumulator_over_steps[of init_store "[demo_store_b]" demo_store_a, OF _ _ sh]
  obtain st' where st': "complete_steps init_store [demo_store_a, demo_store_b] = Inr st'"
    "cur_step st' = 2"
    "get_average_attention st' =
       Some (\<lambda>key. map (\<lambda>item. div3 item 2) (add_store demo_store_a demo_store_b key))"
    by (auto simp: init_store_def)
  have "map (\<lambda>item. div3 item 2) (add_store demo_store_a demo_store_b (Down, True)) = [[[[2, 3]]]]"
    by (simp add: add_store_def add3_def div3_def demo_store_a_def demo_store_b_def)
  moreover have "map (\<lambda>item. div3 item 2) (add_store demo_store_a demo_store_b (Up, False)) = []"
    by (simp add: add_store_def demo_store_a_def demo_store_b_def get_empty_store_def)
  ultimately show ?thesis using st' by auto
qed


section \<open>Properties of the edit controllers\<close>

lemma bzip_same:
  assumes "length xs = length ys"
    and "\<And>x y. (x, y) \<in> set (zip xs ys) \<Longrightarrow> f x y = Inr (g x y)"
  shows "bzip f xs ys = Inr (map2 g xs ys)"
  unfolding bzip_def using assms by (auto intro!: mapM_Inr)

lemma rect3D: "rect3 p k t \<Longrightarrow> m \<in> set t \<Longrightarrow> length m = p \<and> (\<forall>v \<in> set m. length v = k)"
  by (auto simp: rect3_def list_all_iff)

lemma rect4D: "rect4 h p k t \<Longrightarrow> x \<in> set t \<Longrightarrow> length x = h \<and> rect3 p k x"
  by (auto simp: rect4_def list_all_iff)

lemma rect_wordsD: "rect_words k w \<Longrightarrow> a \<in> set w \<Longrightarrow> length a = k"
  by (auto simp: rect_words_def list_all_iff)

lemma mul_words_rect:
  assumes "length t = length w" "rect4 h p k t" "rect_words k w"
  shows "mul_words t w = Inr (map2 scale3 t w)"
  unfolding mul_words_def
proof (rule bzip_same[OF assms(1)])
  fix x y assume xy: "(x, y) \<in> set (zip t w)"
  then have x: "x \<in> set t" and y: "y \<in> set w" by (auto dest: set_zip_leftD set_zip_rightD)
  have ly: "length y = k" using rect_wordsD[OF assms(3) y] .
  have rx: "rect3 p k x" using rect4D[OF assms(2) x] by simp
  show "mapM (mapM (\<lambda>v. bzip (\<lambda>x y. Inr (x * y)) v y)) x = Inr (scale3 x y)"
    unfolding scale3_def
  proof (rule mapM_Inr)
    fix m assume m: "m \<in> set x"
    show "mapM (\<lambda>v. bzip (\<lambda>x y. Inr (x * y)) v y) m = Inr (map (\<lambda>v. map2 (*) v y) m)"
    proof (rule mapM_Inr)
      fix v assume "v \<in> set m"
      then have "length v = length y" using rect3D[OF rx m] ly by simp
      then show "bzip (\<lambda>x y. Inr (x * y)) v y = Inr (map2 (*) v y)"
        by (rule bzip_same) simp
    qed
  qed
qed

lemma split_batch_Suc:
  "split_batch (Suc n) h xs = take h xs # split_batch n h (drop h xs)"
proof -
  have "[0..<Suc n] = 0 # map Suc [0..<n]"
    by (simp add: upt_conv_Cons map_Suc_upt del: upt_Suc)
  then show ?thesis
    by (simp add: split_batch_def o_def add.commute del: upt_Suc)
qed

lemma split_batch_0: "split_batch 0 h xs = []"
  by (simp add: split_batch_def)

lemma length_split_batch: "length (split_batch n h xs) = n"
  by (simp add: split_batch_def)

lemma concat_split_batch: "length xs = n * h \<Longrightarrow> concat (split_batch n h xs) = xs"
proof (induction n arbitrary: xs)
  case 0 then show ?case by (simp add: split_batch_0)
next
  case (Suc n)
  then have "length (drop h xs) = n * h" by simp
  from Suc.IH[OF this] show ?case by (simp add: split_batch_Suc)
qed

lemma split_batch_chunks:
  "length xs = n * h \<Longrightarrow> c \<in> set (split_batch n h xs) \<Longrightarrow> length c = h \<and> set c \<subseteq> set xs"
proof (induction n arbitrary: xs)
  case 0 then show ?case by (simp add: split_batch_0)
next
  case (Suc n)
  have l: "length (drop h xs) = n * h" using Suc.prems(1) by simp
  from Suc.prems(2) consider "c = take h xs" | "c \<in> set (split_batch n h (drop h xs))"
    by (auto simp: split_batch_Suc)
  then show ?case
  proof cases
    case 1
    then show ?thesis using Suc.prems(1) by (auto dest: in_set_takeD)
  next
    case 2
    from Suc.IH[OF l 2] show ?thesis by (auto dest: in_set_dropD)
  qed
qed

lemma split_batch_hd_tl:
  "0 < n \<Longrightarrow> split_batch n h xs = take h xs # tl (split_batch n h xs)"
  by (cases n) (simp_all add: split_batch_Suc)

lemma store_forward_out: "store_forward mr st a c p = Inr (st', out) \<Longrightarrow> out = a"
  by (auto simp: store_forward_def split: if_splits)

lemma edit_forward_out:
  "edit_forward mr st attn c p = Inr (st', out) \<Longrightarrow> edit_attention st attn c = Inr out"
  by (auto simp: edit_forward_def split: sum.splits dest: store_forward_out)

lemma edit_attention_shape:
  assumes "edit_attention st attn c = Inr out"
  shows "out = attn \<or>
     (0 < batch_size st \<and> batch_size st * (length attn div batch_size st) = length attn \<and>
      (\<exists>edited. out = take (length attn div batch_size st) attn @ concat edited))"
proof (cases "c \<or> (fst (num_self_replace st) \<le> cur_step st \<and> cur_step st < snd (num_self_replace st))")
  case False
  then have "edit_attention st attn c = Inr attn"
    unfolding edit_attention_def by (simp only: if_False)
  then show ?thesis using assms by simp
next
  case True
  let ?n = "batch_size st"
  let ?h = "length attn div ?n"
  from assms True have n: "0 < ?n"
    by (auto simp: edit_attention_def split: if_splits)
  from assms True n have len: "?n * ?h = length attn"
    by (auto simp: edit_attention_def Let_def split: if_splits)
  have hd: "hd (split_batch ?n ?h attn) = take ?h attn"
    using split_batch_hd_tl[OF n, of ?h attn] by (metis list.sel(1))
  from assms True n len obtain edited where "out = concat (hd (split_batch ?n ?h attn) # edited)"
    by (auto simp: edit_attention_def Let_def split: if_splits sum.splits)
  then have "out = take ?h attn @ concat edited" using hd by simp
  then show ?thesis using n len by blast
qed

text \<open>
  C9. Whatever the edit controller and whatever the call, the rows of the source prompt
  (the first \<open>h = attn.shape[0] // batch_size\<close> rows, batch index 0 after the reshape) are
  returned as they came in: the edit writes rows 1 to N-1 only.
\<close>

theorem source_rows_unchanged:
  assumes "edit_forward max_res st attn is_cross plc = Inr (st', out)"
  shows "take (length attn div batch_size st) out = take (length attn div batch_size st) attn"
proof -
  let ?h = "length attn div batch_size st"
  from edit_attention_shape[OF edit_forward_out[OF assms]]
  consider "out = attn"
    | edited where "0 < batch_size st" "batch_size st * ?h = length attn"
        "out = take ?h attn @ concat edited"
    by blast
  then show ?thesis
  proof cases
    case 1 then show ?thesis by simp
  next
    case 2
    have "?h \<le> length attn" using 2(1,2)
      by (metis div_le_dividend)
    then have "length (take ?h attn) = ?h" by simp
    then show ?thesis using 2(3) by simp
  qed
qed

lemma rect3I: "(\<And>m. m \<in> set t \<Longrightarrow> length m = p \<and> (\<forall>v \<in> set m. length v = k)) \<Longrightarrow> rect3 p k t"
  by (auto simp: rect3_def list_all_iff)

lemma rect4I: "(\<And>x. x \<in> set t \<Longrightarrow> length x = h \<and> rect3 p k x) \<Longrightarrow> rect4 h p k t"
  by (auto simp: rect4_def list_all_iff)

lemma in_set_map2E:
  assumes "z \<in> set (map2 f xs ys)"
  obtains x y where "(x, y) \<in> set (zip xs ys)" "z = f x y"
  using assms by auto

lemma rect3_scale3: "rect3 p k t \<Longrightarrow> length w = k \<Longrightarrow> rect3 p k (scale3 t w)"
  by (rule rect3I) (auto simp: scale3_def dest!: rect3D)

lemma rect4_scale:
  assumes "rect4 h p k t" "rect_words k w"
  shows "rect4 h p k (map2 scale3 t w)"
proof (rule rect4I)
  fix x assume "x \<in> set (map2 scale3 t w)"
  then obtain a b where ab: "(a, b) \<in> set (zip t w)" "x = scale3 a b" by (rule in_set_map2E)
  then have a: "a \<in> set t" and b: "b \<in> set w" by (auto dest: set_zip_leftD set_zip_rightD)
  from rect4D[OF assms(1) a] rect_wordsD[OF assms(2) b] ab(2)
  show "length x = h \<and> rect3 p k x" by (simp add: rect3_scale3) (simp add: scale3_def)
qed

lemma bzip_vec_add: "length a = length b \<Longrightarrow>
    bzip (\<lambda>x y. Inr (x + y)) a b = Inr (map2 (+) a (b :: real list))"
  by (rule bzip_same) auto

lemma bzip_mat_add:
  assumes "length a = p" "length b = p" "\<forall>v \<in> set a. length v = k" "\<forall>v \<in> set b. length v = k"
  shows "bzip (bzip (\<lambda>x y. Inr (x + y))) a b = Inr (map2 (map2 (+)) a (b :: mat))"
proof (rule bzip_same)
  show "length a = length b" using assms by simp
next
  fix x y assume "(x, y) \<in> set (zip a b)"
  then have "x \<in> set a" "y \<in> set b" by (auto dest: set_zip_leftD set_zip_rightD)
  then have "length x = length y" using assms(3,4) by simp
  then show "bzip (\<lambda>x y. Inr (x + y)) x y = Inr (map2 (+) x y)" by (rule bzip_vec_add)
qed

lemma bzip3_add:
  assumes "length a = length b" "rect3 p k a" "rect3 p k b"
  shows "bzip (bzip (bzip (\<lambda>x y. Inr (x + y)))) a b = Inr (map2 (map2 (map2 (+))) a (b :: tensor3))"
proof (rule bzip_same[OF assms(1)])
  fix x y assume "(x, y) \<in> set (zip a b)"
  then have "x \<in> set a" "y \<in> set b" by (auto dest: set_zip_leftD set_zip_rightD)
  then show "bzip (bzip (\<lambda>x y. Inr (x + y))) x y = Inr (map2 (map2 (+)) x y)"
    using rect3D[OF assms(2)] rect3D[OF assms(3)] by (intro bzip_mat_add) auto
qed

lemma add4_rect:
  assumes "length a = length b" "rect4 h p k a" "rect4 h p k b"
  shows "add4 a b = Inr (map2 (map2 (map2 (map2 (+)))) a b)"
  unfolding add4_def
proof (rule bzip_same[OF assms(1)])
  fix x y assume "(x, y) \<in> set (zip a b)"
  then have "x \<in> set a" "y \<in> set b" by (auto dest: set_zip_leftD set_zip_rightD)
  then show "bzip (bzip (bzip (\<lambda>x y. Inr (x + y)))) x y = Inr (map2 (map2 (map2 (+))) x y)"
    using rect4D[OF assms(2)] rect4D[OF assms(3)] by (intro bzip3_add) auto
qed

lemma map2_snd: "length xs = length ys \<Longrightarrow> map2 (\<lambda>d s. s) xs ys = ys"
  by (induction xs ys rule: list_induct2) auto

lemma assign_vec_same: "length d = length s \<Longrightarrow> assign_vec d s = Inr s"
  unfolding assign_vec_def
  using expand_into_same[of s d "\<lambda>d s. Inr s" "\<lambda>d s. s"] by (simp add: map2_snd)

lemma assign_mat_same:
  assumes "length d = p" "length s = p" "\<forall>v \<in> set d. length v = k" "\<forall>v \<in> set s. length v = k"
  shows "assign_mat d s = Inr s"
proof -
  have "expand_into assign_vec d s = Inr (map2 (\<lambda>d s. s) d s)"
  proof (rule expand_into_same)
    show "length s = length d" using assms by simp
  next
    fix x y assume "(x, y) \<in> set (zip d s)"
    then have "x \<in> set d" "y \<in> set s" by (auto dest: set_zip_leftD set_zip_rightD)
    then show "assign_vec x y = Inr y" using assms(3,4) by (intro assign_vec_same) simp
  qed
  then show ?thesis using assms(1,2) by (simp add: assign_mat_def map2_snd)
qed

lemma assign3_same:
  assumes "length d = length s" "rect3 p k d" "rect3 p k s"
  shows "assign3 d s = Inr s"
proof -
  have "expand_into assign_mat d s = Inr (map2 (\<lambda>d s. s) d s)"
  proof (rule expand_into_same)
    show "length s = length d" using assms by simp
  next
    fix x y assume "(x, y) \<in> set (zip d s)"
    then have "x \<in> set d" "y \<in> set s" by (auto dest: set_zip_leftD set_zip_rightD)
    then show "assign_mat x y = Inr y"
      using rect3D[OF assms(2)] rect3D[OF assms(3)] by (intro assign_mat_same) auto
  qed
  then show ?thesis using assms(1) by (simp add: assign3_def map2_snd)
qed

lemma assign4_same:
  assumes "length d = length s" "rect4 h p k d" "rect4 h p k s"
  shows "assign4 d s = Inr s"
proof -
  have "expand_into assign3 d s = Inr (map2 (\<lambda>d s. s) d s)"
  proof (rule expand_into_same)
    show "length s = length d" using assms by simp
  next
    fix x y assume "(x, y) \<in> set (zip d s)"
    then have "x \<in> set d" "y \<in> set s" by (auto dest: set_zip_leftD set_zip_rightD)
    then show "assign3 x y = Inr y"
      using rect4D[OF assms(2)] rect4D[OF assms(3)] by (intro assign3_same) auto
  qed
  then show ?thesis using assms(1) by (simp add: assign4_def map2_snd)
qed

lemma rect4_split_batch:
  assumes "length attn = n * h" "rect3 p k attn"
  shows "rect4 h p k (split_batch n h attn)"
proof (rule rect4I)
  fix x assume "x \<in> set (split_batch n h attn)"
  from split_batch_chunks[OF assms(1) this] have l: "length x = h" and s: "set x \<subseteq> set attn"
    by simp_all
  have "rect3 p k x" using s rect3D[OF assms(2)] by (intro rect3I) blast
  with l show "length x = h \<and> rect3 p k x" by simp
qed

lemma rect4_tl: "rect4 h p k t \<Longrightarrow> rect4 h p k (tl t)"
  by (cases t) (simp_all add: rect4_def)

lemma rect4_add:
  assumes "length a = length b" "rect4 h p k a" "rect4 h p k b"
  shows "rect4 h p k (map2 (map2 (map2 (map2 (+)))) a b)"
proof (rule rect4I)
  fix x assume "x \<in> set (map2 (map2 (map2 (map2 (+)))) a b)"
  then obtain u v where uv: "(u, v) \<in> set (zip a b)" "x = map2 (map2 (map2 (+))) u v"
    by (rule in_set_map2E)
  then have u: "u \<in> set a" and v: "v \<in> set b" by (auto dest: set_zip_leftD set_zip_rightD)
  from rect4D[OF assms(2) u] rect4D[OF assms(3) v]
  have lu: "length u = h" "length v = h" and ru: "rect3 p k u" "rect3 p k v" by simp_all
  have "rect3 p k x"
  proof (rule rect3I)
    fix m assume "m \<in> set x"
    then obtain c d where cd: "(c, d) \<in> set (zip u v)" "m = map2 (map2 (+)) c d"
      unfolding uv(2) by (rule in_set_map2E)
    then have c: "c \<in> set u" and d: "d \<in> set v" by (auto dest: set_zip_leftD set_zip_rightD)
    from rect3D[OF ru(1) c] rect3D[OF ru(2) d]
    have lc: "length c = p" "length d = p" and kc: "\<forall>w \<in> set c. length w = k"
      "\<forall>w \<in> set d. length w = k" by simp_all
    have "\<forall>w \<in> set m. length w = k"
    proof
      fix w assume "w \<in> set m"
      then obtain e f where ef: "(e, f) \<in> set (zip c d)" "w = map2 (+) e f"
        unfolding cd(2) by (rule in_set_map2E)
      then have "e \<in> set c" "f \<in> set d" by (auto dest: set_zip_leftD set_zip_rightD)
      then show "length w = k" using kc ef(2) by simp
    qed
    then show "length m = p \<and> (\<forall>v \<in> set m. length v = k)" using cd(2) lc by simp
  qed
  then show "length x = h \<and> rect3 p k x" using uv(2) lu by simp
qed

lemma rect_words_one_minus: "rect_words k w \<Longrightarrow> rect_words k (one_minus w)"
  by (auto simp: rect_words_def one_minus_def list_all_iff)

lemma demo_edit_forward:
  "edit_forward 1024 demo_edit demo_attn True Down =
     Inr (demo_edit\<lparr>step_store := append_store get_empty_store (Down, True) [[[1, 0]], [[0, 7 / 8]]]\<rparr>,
          [[[1, 0]], [[0, 7 / 8]]])"
proof -
  have sb: "split_batch 2 (Suc 0) [[[1, 0]], [[1 / 4, 3 / 4]]] = [[[[1, 0]]], [[[1 / 4, 3 / 4]]]]"
    by (simp add: split_batch_def upt_rec)
  have rc: "einsum_hpw_bwn [[[1, 0]]] [[[0, 1], [1, 0]]] = Inr [[[[0, 1]]]]"
    by (simp add: einsum_hpw_bwn_def vec_mat_def col_sums_def bzip_def)
  have l: "mul_words [[[[0, 1]]]] [[1, 1 / 2]] = Inr [[[[0, 1 / 2]]]]"
    by (simp add: mul_words_def bzip_def)
  have r: "mul_words [[[[1 / 4, 3 / 4]]]] (one_minus [[1, 1 / 2]]) = Inr [[[[0, 3 / 8]]]]"
    by (simp add: mul_words_def bzip_def one_minus_def)
  have a: "add4 [[[[0, 1 / 2]]]] [[[[0, 3 / 8]]]] = Inr [[[[0, 7 / 8]]]]"
    by (simp add: add4_def bzip_def)
  have w: "assign4 [[[[1 / 4, 3 / 4]]]] [[[[0, 7 / 8]]]] = Inr [[[[0, 7 / 8]]]]"
    by (simp add: assign4_def assign3_def assign_mat_def assign_vec_def expand_into_def)
  have e: "edit_attention demo_edit demo_attn True = Inr [[[1, 0]], [[0, 7 / 8]]]"
    unfolding edit_attention_def
    by (simp add: demo_edit_def Let_def py_index_def sb rc l r a w demo_attn_def)
  show ?thesis
    unfolding edit_forward_def e
    by (simp add: store_forward_def extent1_def demo_edit_def)
qed

theorem source_rows_unchanged_witness:
  "edit_forward 1024 demo_edit demo_attn True Down =
     Inr (demo_edit\<lparr>step_store := append_store get_empty_store (Down, True) [[[1, 0]], [[0, 7 / 8]]]\<rparr>,
          [[[1, 0]], [[0, 7 / 8]]]) \<and>
   take 1 [[[1, 0]], [[0, 7 / 8 :: real]]] = take 1 demo_attn"
  using source_rows_unchanged[OF demo_edit_forward] demo_edit_forward
  by (simp add: demo_attn_def demo_edit_def)

lemma length_concat_uniform:
  "(\<And>x. x \<in> set xs \<Longrightarrow> length x = h) \<Longrightarrow> length (concat xs) = length xs * h"
  by (induction xs) auto

lemma concat_nth_uniform:
  "(\<And>x. x \<in> set xs \<Longrightarrow> length x = h) \<Longrightarrow> b < length xs \<Longrightarrow> j < h \<Longrightarrow>
   concat xs ! (b * h + j) = xs ! b ! j"
proof (induction xs arbitrary: b)
  case Nil then show ?case by simp
next
  case (Cons x xs)
  have lx: "length x = h" using Cons.prems(1) by simp
  show ?case
  proof (cases b)
    case 0
    then show ?thesis using lx Cons.prems(3) by (simp add: nth_append)
  next
    case (Suc c)
    have "concat xs ! (c * h + j) = xs ! c ! j"
      using Cons.prems Suc by (intro Cons.IH) auto
    then show ?thesis using Suc lx by (simp add: nth_append)
  qed
qed

lemma split_batch_nth:
  "b < n \<Longrightarrow> split_batch n h xs ! b = take h (drop (b * h) xs)"
  by (simp add: split_batch_def)

lemma scale3_nth:
  assumes "rect3 p k t" "length w = k" "j < length t" "i < p" "n < k"
  shows "scale3 t w ! j ! i ! n = t ! j ! i ! n * w ! n"
proof -
  have m: "t ! j \<in> set t" using assms(3) by simp
  from rect3D[OF assms(1) m] have lp: "length (t ! j) = p"
    and lk: "\<forall>v \<in> set (t ! j). length v = k" by simp_all
  have "t ! j ! i \<in> set (t ! j)" using lp assms(4) by simp
  then have "length (t ! j ! i) = k" using lk by simp
  then show ?thesis using assms lp by (simp add: scale3_def)
qed

lemma add_nth4:
  assumes "length a = length b" "rect4 h p k a" "rect4 h p k b"
    "x < length a" "j < h" "i < p" "n < k"
  shows "map2 (map2 (map2 (map2 (+)))) a b ! x ! j ! i ! n = a ! x ! j ! i ! n + b ! x ! j ! i ! (n::nat)"
proof -
  have ax: "a ! x \<in> set a" and bx: "b ! x \<in> set b" using assms(1,4) by simp_all
  from rect4D[OF assms(2) ax] rect4D[OF assms(3) bx]
  have la: "length (a ! x) = h" "length (b ! x) = h"
    and ra: "rect3 p k (a ! x)" "rect3 p k (b ! x)" by simp_all
  have aj: "a ! x ! j \<in> set (a ! x)" and bj: "b ! x ! j \<in> set (b ! x)"
    using la assms(5) by simp_all
  from rect3D[OF ra(1) aj] rect3D[OF ra(2) bj]
  have lp: "length (a ! x ! j) = p" "length (b ! x ! j) = p"
    and lk: "\<forall>v \<in> set (a ! x ! j). length v = k" "\<forall>v \<in> set (b ! x ! j). length v = k"
    by simp_all
  have "a ! x ! j ! i \<in> set (a ! x ! j)" "b ! x ! j ! i \<in> set (b ! x ! j)"
    using lp assms(6) by simp_all
  then have l: "length (a ! x ! j ! i) = k" "length (b ! x ! j ! i) = k" using lk by simp_all
  show ?thesis using assms(1,4,5,6,7) la lp l by simp
qed

lemma edit_attention_cross:
  assumes n: "0 < batch_size st"
    and len: "length attn = batch_size st * h"
    and rect: "rect3 p k attn"
    and alpha: "py_index (cross_replace_alpha st) (cur_step st) = Inr alpha"
    and alpha_shape: "length alpha = batch_size st - 1" "rect_words k alpha"
    and rc: "replace_cross_attention (kind st) (take h attn)
               (tl (split_batch (batch_size st) h attn)) = Inr rc"
    and rc_shape: "length rc = batch_size st - 1" "rect4 h p k rc"
  shows "edit_attention st attn True =
     Inr (take h attn @ concat (map2 (map2 (map2 (map2 (+))))
        (map2 scale3 rc alpha)
        (map2 scale3 (tl (split_batch (batch_size st) h attn)) (one_minus alpha))))"
proof -
  let ?n = "batch_size st"
  let ?rows = "split_batch ?n h attn"
  let ?repl = "tl ?rows"
  let ?L = "map2 scale3 rc alpha"
  let ?R = "map2 scale3 ?repl (one_minus alpha)"
  let ?S = "map2 (map2 (map2 (map2 (+)))) ?L ?R"
  have hdiv: "length attn div ?n = h" using n len by simp
  have len': "length attn = ?n * h" using len .
  have r4: "rect4 h p k ?rows" using rect4_split_batch[OF _ rect, of ?n h] len by simp
  have rrepl: "rect4 h p k ?repl" using r4 by (rule rect4_tl)
  have lrepl: "length ?repl = ?n - 1" by (simp add: length_split_batch)
  have hd: "hd ?rows = take h attn"
    using split_batch_hd_tl[OF n, of h attn] by (metis list.sel(1))
  have "length rc = length alpha" by (simp only: rc_shape(1) alpha_shape(1))
  then have l: "mul_words rc alpha = Inr ?L"
    using rc_shape(2) alpha_shape(2) by (rule mul_words_rect)
  have rw: "rect_words k (one_minus alpha)" using alpha_shape(2) by (rule rect_words_one_minus)
  have lom: "length (one_minus alpha) = ?n - 1" using alpha_shape(1) by (simp add: one_minus_def)
  have "length ?repl = length (one_minus alpha)" by (simp only: lrepl lom)
  then have r: "mul_words ?repl (one_minus alpha) = Inr ?R"
    using rrepl rw by (rule mul_words_rect)
  have rL: "rect4 h p k ?L" using rc_shape(2) alpha_shape(2) by (rule rect4_scale)
  have rR: "rect4 h p k ?R" using rrepl rw by (rule rect4_scale)
  have lL: "length ?L = ?n - 1" using rc_shape(1) alpha_shape(1) by simp
  have lR: "length ?R = ?n - 1" using lrepl lom by simp
  have lLR: "length ?L = length ?R" by (simp only: lL lR)
  have a: "add4 ?L ?R = Inr ?S" using lLR rL rR by (rule add4_rect)
  have rS: "rect4 h p k ?S" using lLR rL rR by (rule rect4_add)
  have lS: "length ?S = ?n - 1" using lL lR by simp
  have "length ?repl = length ?S" by (simp only: lrepl lS)
  then have w: "assign4 ?repl ?S = Inr ?S" using rrepl rS by (rule assign4_same)
  show ?thesis
    unfolding edit_attention_def
    using n len by (simp add: hdiv Let_def alpha rc hd l r a w mult.commute)
qed

lemma store_forward_returns: "\<exists>st'. store_forward mr st a c p = Inr (st', a)"
  by (simp add: store_forward_def)

lemma edit_forward_returns:
  "edit_attention st attn c = Inr out \<Longrightarrow> \<exists>st'. edit_forward mr st attn c p = Inr (st', out)"
  by (simp add: edit_forward_def store_forward_returns)

text \<open>
  C1. A cross-attention call on an edit controller with \<open>N \<ge> 2\<close> prompts, on a rectangular
  tensor of \<open>N * h\<close> rows, with the schedule entry \<open>alpha\<close> of the current step and the
  candidate \<open>rc\<close> that the subclass's \<open>replace_cross_attention\<close> returns (both of the
  edited rows' shape): every entry of every edited row of the returned tensor is
  \<open>rc * alpha + (1 - alpha) * edited\<close>; where \<open>alpha = 1\<close> it is the candidate, where
  \<open>alpha = 0\<close> it is the edited prompt's own attention.
\<close>

theorem cross_attention_is_blend:
  assumes n: "2 \<le> batch_size st"
    and len: "length attn = batch_size st * h"
    and rect: "rect3 p k attn"
    and alpha: "py_index (cross_replace_alpha st) (cur_step st) = Inr alpha"
    and alpha_shape: "length alpha = batch_size st - 1" "rect_words k alpha"
    and rc: "replace_cross_attention (kind st) (take h attn)
               (tl (split_batch (batch_size st) h attn)) = Inr rc"
    and rc_shape: "length rc = batch_size st - 1" "rect4 h p k rc"
  shows "\<exists>st' out. edit_forward max_res st attn True plc = Inr (st', out) \<and>
      length out = length attn \<and>
      (\<forall>b < batch_size st - 1. \<forall>j < h. \<forall>i < p. \<forall>n < k.
         out ! ((b + 1) * h + j) ! i ! n =
           rc ! b ! j ! i ! n * alpha ! b ! n
           + (1 - alpha ! b ! n) * attn ! ((b + 1) * h + j) ! i ! n
         \<and> (alpha ! b ! n = 1 \<longrightarrow> out ! ((b + 1) * h + j) ! i ! n = rc ! b ! j ! i ! n)
         \<and> (alpha ! b ! n = 0 \<longrightarrow>
              out ! ((b + 1) * h + j) ! i ! n = attn ! ((b + 1) * h + j) ! i ! n))"
proof -
  let ?n = "batch_size st"
  let ?rows = "split_batch ?n h attn"
  let ?repl = "tl ?rows"
  let ?L = "map2 scale3 rc alpha"
  let ?R = "map2 scale3 ?repl (one_minus alpha)"
  let ?S = "map2 (map2 (map2 (map2 (+)))) ?L ?R"
  let ?out = "take h attn @ concat ?S"
  have n0: "0 < ?n" using n by simp
  have e: "edit_attention st attn True = Inr ?out"
    using n0 len rect alpha alpha_shape rc rc_shape by (rule edit_attention_cross)
  from edit_forward_returns[OF e]
  obtain st' where f: "edit_forward max_res st attn True plc = Inr (st', ?out)" by blast
  have r4: "rect4 h p k ?rows" using rect4_split_batch[OF _ rect, of ?n h] len by simp
  have rrepl: "rect4 h p k ?repl" using r4 by (rule rect4_tl)
  have lrepl: "length ?repl = ?n - 1" by (simp add: length_split_batch)
  have rw: "rect_words k (one_minus alpha)" using alpha_shape(2) by (rule rect_words_one_minus)
  have lom: "length (one_minus alpha) = ?n - 1" using alpha_shape(1) by (simp add: one_minus_def)
  have rL: "rect4 h p k ?L" using rc_shape(2) alpha_shape(2) by (rule rect4_scale)
  have rR: "rect4 h p k ?R" using rrepl rw by (rule rect4_scale)
  have lL: "length ?L = ?n - 1" using rc_shape(1) alpha_shape(1) by simp
  have lR: "length ?R = ?n - 1" using lrepl lom by simp
  have lLR: "length ?L = length ?R" by (simp only: lL lR)
  have rS: "rect4 h p k ?S" using lLR rL rR by (rule rect4_add)
  have lS: "length ?S = ?n - 1" using lL lR by simp
  have chunkS: "\<And>x. x \<in> set ?S \<Longrightarrow> length x = h" using rect4D[OF rS] by simp
  have lth: "length (take h attn) = h"
  proof -
    have "h \<le> ?n * h" using n0 by simp
    then show ?thesis using len by simp
  qed
  have lcat: "length (concat ?S) = (?n - 1) * h"
    using length_concat_uniform[of ?S h, OF chunkS] lS by simp
  have lout: "length ?out = length attn"
  proof -
    have "h + (?n - 1) * h = ?n * h" using n0 by (cases ?n) simp_all
    then show ?thesis using lth lcat len by simp
  qed
  have elem: "?out ! ((b + 1) * h + j) ! i ! m =
           rc ! b ! j ! i ! m * alpha ! b ! m
           + (1 - alpha ! b ! m) * attn ! ((b + 1) * h + j) ! i ! m"
    if b: "b < ?n - 1" and j: "j < h" and i: "i < p" and m: "m < k" for b j i m
  proof -
    have "?out ! ((b + 1) * h + j) = concat ?S ! (b * h + j)"
      using lth by (simp add: nth_append)
    also have "\<dots> = ?S ! b ! j"
      using chunkS b j lS by (intro concat_nth_uniform) simp_all
    finally have o: "?out ! ((b + 1) * h + j) = ?S ! b ! j" .
    have bL: "b < length ?L" using b by (simp only: lL)
    have s: "?S ! b ! j ! i ! m = ?L ! b ! j ! i ! m + ?R ! b ! j ! i ! m"
      using lLR rL rR bL j i m by (rule add_nth4)
    have brc: "b < length rc" "b < length alpha" using b rc_shape(1) alpha_shape(1) by simp_all
    have rcb: "rc ! b \<in> set rc" and ab: "alpha ! b \<in> set alpha" using brc by simp_all
    have lab: "length (alpha ! b) = k" using rect_wordsD[OF alpha_shape(2) ab] .
    from rect4D[OF rc_shape(2) rcb] have rrc: "rect3 p k (rc ! b)" and lrc: "length (rc ! b) = h"
      by simp_all
    have Lb: "?L ! b = scale3 (rc ! b) (alpha ! b)" using brc by simp
    have jrc: "j < length (rc ! b)" using j lrc by simp
    have L: "?L ! b ! j ! i ! m = rc ! b ! j ! i ! m * alpha ! b ! m"
      unfolding Lb using rrc lab jrc i m by (rule scale3_nth)
    have brepl: "b < length ?repl" "b < length (one_minus alpha)" using b lrepl lom by simp_all
    have replb: "?repl ! b \<in> set ?repl" using brepl by simp
    from rect4D[OF rrepl replb] have rre: "rect3 p k (?repl ! b)" and lre: "length (?repl ! b) = h"
      by simp_all
    have omb: "one_minus alpha ! b = map (\<lambda>a. 1 - a) (alpha ! b)"
      using brc by (simp add: one_minus_def)
    have lomb: "length (one_minus alpha ! b) = k" using omb lab by simp
    have Rb: "?R ! b = scale3 (?repl ! b) (one_minus alpha ! b)" using brepl by simp
    have jre: "j < length (?repl ! b)" using j lre by simp
    have R: "?R ! b ! j ! i ! m = ?repl ! b ! j ! i ! m * (one_minus alpha ! b ! m)"
      unfolding Rb using rre lomb jre i m by (rule scale3_nth)
    have om: "one_minus alpha ! b ! m = 1 - alpha ! b ! m" using omb m lab by simp
    have b1: "b + 1 < ?n" using b by simp
    have "?repl ! b = ?rows ! (b + 1)"
      using b1 by (simp add: nth_tl length_split_batch)
    also have "\<dots> = take h (drop ((b + 1) * h) attn)" using b1 by (rule split_batch_nth)
    finally have rb: "?repl ! b = take h (drop ((b + 1) * h) attn)" .
    have "(b + 1) * h \<le> ?n * h" using b1 by (intro mult_le_mono1) simp
    then have "(b + 1) * h \<le> length attn" using len by simp
    then have "?repl ! b ! j = attn ! ((b + 1) * h + j)"
      unfolding rb using j by simp
    then have re: "?repl ! b ! j ! i ! m = attn ! ((b + 1) * h + j) ! i ! m" by simp
    show ?thesis unfolding o s L R om re by (simp add: mult.commute)
  qed
  have "\<forall>b < ?n - 1. \<forall>j < h. \<forall>i < p. \<forall>m < k.
         ?out ! ((b + 1) * h + j) ! i ! m =
           rc ! b ! j ! i ! m * alpha ! b ! m
           + (1 - alpha ! b ! m) * attn ! ((b + 1) * h + j) ! i ! m
         \<and> (alpha ! b ! m = 1 \<longrightarrow> ?out ! ((b + 1) * h + j) ! i ! m = rc ! b ! j ! i ! m)
         \<and> (alpha ! b ! m = 0 \<longrightarrow>
              ?out ! ((b + 1) * h + j) ! i ! m = attn ! ((b + 1) * h + j) ! i ! m)"
  proof (intro allI impI)
    fix b j i m
    assume "b < ?n - 1" "j < h" "i < p" "m < k"
    from elem[OF this]
    show "?out ! ((b + 1) * h + j) ! i ! m =
           rc ! b ! j ! i ! m * alpha ! b ! m
           + (1 - alpha ! b ! m) * attn ! ((b + 1) * h + j) ! i ! m
         \<and> (alpha ! b ! m = 1 \<longrightarrow> ?out ! ((b + 1) * h + j) ! i ! m = rc ! b ! j ! i ! m)
         \<and> (alpha ! b ! m = 0 \<longrightarrow>
              ?out ! ((b + 1) * h + j) ! i ! m = attn ! ((b + 1) * h + j) ! i ! m)"
      by simp
  qed
  with f lout show ?thesis by blast
qed

theorem cross_attention_is_blend_witness:
  "\<exists>st' out. edit_forward 1024 demo_edit demo_attn True Down = Inr (st', out) \<and>
     length out = 2 \<and> out ! 1 ! 0 ! 0 = 0 \<and> out ! 1 ! 0 ! 1 = 7 / 8"
proof -
  have n: "2 \<le> batch_size demo_edit" by (simp add: demo_edit_def)
  have len: "length demo_attn = batch_size demo_edit * 1"
    by (simp add: demo_edit_def demo_attn_def)
  have rect: "rect3 1 2 demo_attn" by (simp add: rect3_def demo_attn_def)
  have alpha: "py_index (cross_replace_alpha demo_edit) (cur_step demo_edit) = Inr [[1, 1 / 2]]"
    by (simp add: demo_edit_def py_index_def)
  have ash: "length [[1, 1 / 2 :: real]] = batch_size demo_edit - 1" "rect_words 2 [[1, 1 / 2]]"
    by (simp_all add: demo_edit_def rect_words_def)
  have sb: "split_batch 2 (Suc 0) [[[1, 0]], [[1 / 4, 3 / 4]]] = [[[[1, 0]]], [[[1 / 4, 3 / 4 :: real]]]]"
    by (simp add: split_batch_def upt_rec)
  have rc: "replace_cross_attention (kind demo_edit) (take 1 demo_attn)
      (tl (split_batch (batch_size demo_edit) 1 demo_attn)) = Inr [[[[0, 1]]]]"
    by (simp add: demo_edit_def demo_attn_def sb einsum_hpw_bwn_def vec_mat_def
        col_sums_def bzip_def)
  have rsh: "length [[[[0, 1 :: real]]]] = batch_size demo_edit - 1" "rect4 1 1 2 [[[[0, 1]]]]"
    by (simp_all add: demo_edit_def rect4_def rect3_def)
  from cross_attention_is_blend[OF n len rect alpha ash rc rsh, of 1024 Down]
  obtain st' out where f: "edit_forward 1024 demo_edit demo_attn True Down = Inr (st', out)"
    and l: "length out = length demo_attn"
    by (elim exE conjE) (rule that; assumption)
  from f demo_edit_forward have o: "out = [[[1, 0]], [[0, 7 / 8]]]" by simp
  show ?thesis using f l unfolding o by (simp add: demo_attn_def)
qed

lemma extent2_rect4:
  assumes "rect4 h p k t" "extent2 t \<noteq> p"
  shows "t = [] \<or> h = 0"
proof (cases t)
  case Nil then show ?thesis by simp
next
  case (Cons x xs)
  from assms(1) Cons have lx: "length x = h" and rx: "rect3 p k x" by (simp_all add: rect4_def)
  show ?thesis
  proof (cases x)
    case Nil then show ?thesis using lx by simp
  next
    case (Cons m ms)
    with rx have "length m = p" by (simp add: rect3_def)
    then have "extent2 t = p" using \<open>t = x # xs\<close> Cons by (simp add: extent2_def extent1_def)
    with assms(2) show ?thesis by simp
  qed
qed

lemma extent2_le: "rect4 h p k t \<Longrightarrow> extent2 t \<le> p"
  by (cases t; cases "hd t") (auto simp: extent2_def extent1_def rect4_def rect3_def)

lemma assign4_self: "rect4 h p k t \<Longrightarrow> assign4 t t = Inr t"
  by (rule assign4_same) simp_all

lemma replicate_rows_empty:
  assumes "\<And>x. x \<in> set t \<Longrightarrow> length x = 0"
  shows "replicate (length t) [] = t"
  using assms by (induction t) auto

lemma rect4_replicate: "length b = h \<Longrightarrow> rect3 p k b \<Longrightarrow> rect4 h p k (replicate n b)"
  by (simp add: rect4_def list_all_iff)

lemma edit_attention_self:
  assumes inw: "fst (num_self_replace st) \<le> cur_step st \<and> cur_step st < snd (num_self_replace st)"
    and n: "0 < batch_size st"
    and len: "length attn = batch_size st * h"
    and rect: "rect3 p k attn"
  shows "p \<le> 16 ^ 2 \<Longrightarrow>
           edit_attention st attn False = Inr (concat (replicate (batch_size st) (take h attn)))"
    and "16 ^ 2 < p \<Longrightarrow> edit_attention st attn False = Inr attn"
proof -
  let ?n = "batch_size st"
  let ?rows = "split_batch ?n h attn"
  let ?repl = "tl ?rows"
  let ?base = "take h attn"
  have hdiv: "length attn div ?n = h" using n len by simp
  have r4: "rect4 h p k ?rows" using rect4_split_batch[OF _ rect, of ?n h] len by simp
  have rrepl: "rect4 h p k ?repl" using r4 by (rule rect4_tl)
  have lrepl: "length ?repl = ?n - 1" by (simp add: length_split_batch)
  have rows: "?rows = ?base # ?repl" using n by (rule split_batch_hd_tl)
  have hd: "hd ?rows = ?base" using rows by (metis list.sel(1))
  have "?base \<in> set ?rows" using rows by (metis list.set_intros(1))
  from rect4D[OF r4 this] have lb: "length ?base = h" and rb: "rect3 p k ?base" by simp_all
  have unfold: "edit_attention st attn False =
      (case assign4 ?repl (replace_self_attention ?base ?repl) of
         Inl e \<Rightarrow> Inl e | Inr edited \<Rightarrow> Inr (concat (hd ?rows # edited)))"
    unfolding edit_attention_def using inw n len by (simp add: hdiv Let_def hd mult.commute)
  {
    assume small: "p \<le> 16 ^ 2"
    have "extent2 ?repl \<le> 16 ^ 2" using extent2_le[OF rrepl] small by simp
    then have rs: "replace_self_attention ?base ?repl = replicate (?n - 1) ?base"
      unfolding replace_self_attention_def by (simp only: if_True lrepl)
    have rr: "rect4 h p k (replicate (?n - 1) ?base)" using lb rb by (rule rect4_replicate)
    have "length ?repl = length (replicate (?n - 1) ?base)" by (simp only: lrepl length_replicate)
    then have a: "assign4 ?repl (replicate (?n - 1) ?base) = Inr (replicate (?n - 1) ?base)"
      using rrepl rr by (rule assign4_same)
    have "?base # replicate (?n - 1) ?base = replicate ?n ?base"
      using n by (cases ?n) simp_all
    then show "edit_attention st attn False = Inr (concat (replicate ?n ?base))"
      unfolding unfold rs a by (simp add: hd)
  }
  {
    assume big: "16 ^ 2 < p"
    have rs: "replace_self_attention ?base ?repl = ?repl"
    proof (cases "extent2 ?repl \<le> 16 ^ 2")
      case False
      then show ?thesis by (simp add: replace_self_attention_def)
    next
      case True
      then have "extent2 ?repl \<noteq> p" using big by simp
      from extent2_rect4[OF rrepl this] consider "?repl = []" | "h = 0" by blast
      then have "replicate (length ?repl) ?base = ?repl"
      proof cases
        case 1 then show ?thesis by simp
      next
        case 2
        have z: "\<And>x. x \<in> set ?repl \<Longrightarrow> length x = 0" using rect4D[OF rrepl] 2 by simp
        have e: "replicate (length ?repl) [] = ?repl" using z by (rule replicate_rows_empty)
        have "?base = []" using 2 by simp
        then show ?thesis using e by (simp only:)
      qed
      then show ?thesis using True by (simp add: replace_self_attention_def)
    qed
    have a: "assign4 ?repl ?repl = Inr ?repl" using rrepl by (rule assign4_self)
    have "concat (?base # ?repl) = attn"
      using concat_split_batch[of attn ?n h] len rows by simp
    then show "edit_attention st attn False = Inr attn"
      unfolding unfold rs a by (simp add: hd)
  }
qed

lemma edit_attention_outside:
  assumes "\<not> (fst (num_self_replace st) \<le> cur_step st \<and> cur_step st < snd (num_self_replace st))"
  shows "edit_attention st attn False = Inr attn"
proof -
  from assms have "\<not> (False \<or> (fst (num_self_replace st) \<le> cur_step st \<and>
      cur_step st < snd (num_self_replace st)))" by simp
  then show ?thesis unfolding edit_attention_def by (simp only: if_False)
qed

lemma bit_length_numeral:
  "bit_length (numeral n) = Suc (bit_length (numeral n div 2))"
  by (subst bit_length.simps) simp

lemma bit_length_small: "bit_length 0 = 0" "bit_length (Suc 0) = 1"
  by (simp_all add: bit_length.simps)

lemma float_of_int_10: "float_of_int 10 = Inr (Finite 10 0)"
  by (simp add: float_of_int_def round_double_def round_half_even_def Let_def
      bit_length_numeral bit_length_small)

lemma float_of_int_50: "float_of_int 50 = Inr (Finite 50 0)"
  by (simp add: float_of_int_def round_double_def round_half_even_def Let_def
      bit_length_numeral bit_length_small)

lemma window_10_0_7: "self_replace_window 10 (Fraction float_0_7) = Inr (0, 7)"
  by (simp add: self_replace_window_def window_numbers_def window_bound_def float_of_int_10
      float_0_7_def round_double_def round_half_even_def Let_def int_of_float_def
      bit_length_numeral bit_length_small)

lemma window_50_0_58: "self_replace_window 50 (Fraction float_0_58) = Inr (0, 28)"
  by (simp add: self_replace_window_def window_numbers_def window_bound_def float_of_int_50
      float_0_58_def round_double_def round_half_even_def Let_def int_of_float_def
      bit_length_numeral bit_length_small)

lemma window_50_0_4: "self_replace_window 50 (Fraction float_0_4) = Inr (0, 20)"
  by (simp add: self_replace_window_def window_numbers_def window_bound_def float_of_int_50
      float_0_4_def round_double_def round_half_even_def Let_def int_of_float_def
      bit_length_numeral bit_length_small)

lemma demo_edit_init:
  "edit_init 2 50 [[[1, 1 / 2]]] (Fraction float_0_4) None (Replace [[[0, 1], [1, 0]]])
     = Inr demo_edit"
  by (simp add: edit_init_def window_50_0_4 demo_edit_def)

lemma self_replace_windowD:
  assumes "self_replace_window num_steps srs = Inr (lo, hi)"
  shows "window_bound num_steps (fst (window_numbers srs)) = Inr lo"
    and "window_bound num_steps (snd (window_numbers srs)) = Inr hi"
  using assms unfolding self_replace_window_def by (auto split: sum.splits)

lemma edit_initD:
  assumes "edit_init n_prompts num_steps alpha srs lb knd = Inr st0"
  shows "self_replace_window num_steps srs = Inr (num_self_replace st0)"
    and "batch_size st0 = n_prompts" and "cur_step st0 = 0" and "kind st0 = knd"
  using assms unfolding edit_init_def by (auto split: sum.splits)

text \<open>
  C2. A self-attention call on an edit controller whose window is the one that the
  constructor stored for \<open>num_steps\<close> and \<open>self_replace_steps\<close>: the pair
  \<open>(int(num_steps * start), int(num_steps * end))\<close>, the products taken as Python takes
  them. At a step inside the half-open window, on a rectangular tensor of
  \<open>batch_size * h\<close> rows with \<open>p\<close> query positions: if \<open>p \<le> 16 ** 2\<close> the returned tensor
  is the source rows repeated for every prompt, if \<open>p > 16 ** 2\<close> it is the tensor as it
  came in. Outside the window the tensor is returned as it came in, whatever its shape.
\<close>

theorem self_attention_replacement:
  assumes init: "edit_init n_prompts num_steps alpha srs lb knd = Inr st0"
    and stored: "num_self_replace st = num_self_replace st0"
  shows "\<exists>lo hi.
       window_bound num_steps (fst (window_numbers srs)) = Inr lo \<and>
       window_bound num_steps (snd (window_numbers srs)) = Inr hi \<and>
       num_self_replace st = (lo, hi) \<and>
       (lo \<le> cur_step st \<and> cur_step st < hi \<and>
          0 < batch_size st \<and> length attn = batch_size st * h \<and> rect3 p k attn \<and> p \<le> 16 ^ 2
          \<longrightarrow> (\<exists>st'. edit_forward max_res st attn False plc =
                 Inr (st', concat (replicate (batch_size st) (take h attn)))))
       \<and> (lo \<le> cur_step st \<and> cur_step st < hi \<and>
          0 < batch_size st \<and> length attn = batch_size st * h \<and> rect3 p k attn \<and> 16 ^ 2 < p
          \<longrightarrow> (\<exists>st'. edit_forward max_res st attn False plc = Inr (st', attn)))
       \<and> (\<not> (lo \<le> cur_step st \<and> cur_step st < hi)
          \<longrightarrow> (\<exists>st'. edit_forward max_res st attn False plc = Inr (st', attn)))"
proof -
  obtain lo hi where w: "num_self_replace st0 = (lo, hi)" by (cases "num_self_replace st0") auto
  from edit_initD(1)[OF init] w have sw: "self_replace_window num_steps srs = Inr (lo, hi)"
    by simp
  have st: "num_self_replace st = (lo, hi)" using stored w by simp
  have a: "\<exists>st'. edit_forward max_res st attn False plc =
         Inr (st', concat (replicate (batch_size st) (take h attn)))"
    if "lo \<le> cur_step st \<and> cur_step st < hi \<and>
          0 < batch_size st \<and> length attn = batch_size st * h \<and> rect3 p k attn \<and> p \<le> 16 ^ 2"
  proof -
    from that have inw: "fst (num_self_replace st) \<le> cur_step st \<and> cur_step st < snd (num_self_replace st)"
      by (simp add: st)
    from that have n: "0 < batch_size st" and len: "length attn = batch_size st * h"
      and rect: "rect3 p k attn" and small: "p \<le> 16 ^ 2" by blast+
    from edit_attention_self(1)[OF inw n len rect small] show ?thesis
      by (rule edit_forward_returns)
  qed
  have b: "\<exists>st'. edit_forward max_res st attn False plc = Inr (st', attn)"
    if "lo \<le> cur_step st \<and> cur_step st < hi \<and>
          0 < batch_size st \<and> length attn = batch_size st * h \<and> rect3 p k attn \<and> 16 ^ 2 < p"
  proof -
    from that have inw: "fst (num_self_replace st) \<le> cur_step st \<and> cur_step st < snd (num_self_replace st)"
      by (simp add: st)
    from that have n: "0 < batch_size st" and len: "length attn = batch_size st * h"
      and rect: "rect3 p k attn" and big: "16 ^ 2 < p" by blast+
    from edit_attention_self(2)[OF inw n len rect big] show ?thesis
      by (rule edit_forward_returns)
  qed
  have c: "\<exists>st'. edit_forward max_res st attn False plc = Inr (st', attn)"
    if "\<not> (lo \<le> cur_step st \<and> cur_step st < hi)"
  proof -
    from that have "\<not> (fst (num_self_replace st) \<le> cur_step st \<and> cur_step st < snd (num_self_replace st))"
      by (simp add: st)
    from edit_attention_outside[OF this] show ?thesis
      by (rule edit_forward_returns)
  qed
  from self_replace_windowD[OF sw] st a b c show ?thesis by blast
qed

theorem self_attention_replacement_witness:
  "window_bound 50 (PyInt 0) = Inr 0 \<and> window_bound 50 (PyFloat float_0_4) = Inr 20 \<and>
   (\<exists>st'. edit_forward 1024 demo_edit demo_attn False Mid = Inr (st', [[[1, 0]], [[1, 0]]])) \<and>
   (\<exists>st'. edit_forward 1024 demo_edit demo_attn_fine False Mid = Inr (st', demo_attn_fine)) \<and>
   (\<exists>st'. edit_forward 1024 (demo_edit\<lparr>cur_step := 20\<rparr>) demo_attn False Mid = Inr (st', demo_attn))"
proof -
  have st0: "cur_step demo_edit = 0" "batch_size demo_edit = 2"
    "num_self_replace demo_edit = (0, 20)"
    by (simp_all add: demo_edit_def)
  have wn: "window_numbers (Fraction float_0_4) = (PyInt 0, PyFloat float_0_4)"
    by (simp add: window_numbers_def)
  have r1: "rect3 1 2 demo_attn" by (simp add: rect3_def demo_attn_def)
  have r2: "rect3 257 2 demo_attn_fine" by (simp add: rect3_def demo_attn_fine_def list_all_iff)
  have t: "window_bound 50 (PyInt 0) = Inr lo \<Longrightarrow> window_bound 50 (PyFloat float_0_4) = Inr hi
      \<Longrightarrow> num_self_replace st = (lo, hi) \<Longrightarrow> num_self_replace st = (0, 20)
      \<Longrightarrow> lo = 0 \<and> hi = 20" for lo hi and st :: edit_control
    by simp
  from self_attention_replacement[OF demo_edit_init refl,
      where attn = demo_attn and h = 1 and p = 1 and k = 2 and max_res = 1024 and plc = Mid]
  obtain lo hi where b: "window_bound 50 (PyInt 0) = Inr lo"
      "window_bound 50 (PyFloat float_0_4) = Inr hi"
    and w: "num_self_replace demo_edit = (lo, hi)"
    and i: "lo \<le> cur_step demo_edit \<and> cur_step demo_edit < hi \<and>
          0 < batch_size demo_edit \<and> length demo_attn = batch_size demo_edit * 1 \<and>
          rect3 1 2 demo_attn \<and> (1::nat) \<le> 16 ^ 2
          \<longrightarrow> (\<exists>st'. edit_forward 1024 demo_edit demo_attn False Mid =
                 Inr (st', concat (replicate (batch_size demo_edit) (take 1 demo_attn))))"
    unfolding wn fst_conv snd_conv by (elim exE conjE) (rule that; assumption)
  from w st0(3) have lh: "lo = 0" "hi = 20" by simp_all
  have c1: "\<exists>st'. edit_forward 1024 demo_edit demo_attn False Mid = Inr (st', [[[1, 0]], [[1, 0]]])"
    using i r1 by (simp add: lh st0 demo_attn_def numeral_2_eq_2)
  from self_attention_replacement[OF demo_edit_init refl,
      where attn = demo_attn_fine and h = 1 and p = 257 and k = 2 and max_res = 1024 and plc = Mid]
  obtain lo2 hi2 where w2: "num_self_replace demo_edit = (lo2, hi2)"
    and i2: "lo2 \<le> cur_step demo_edit \<and> cur_step demo_edit < hi2 \<and>
          0 < batch_size demo_edit \<and> length demo_attn_fine = batch_size demo_edit * 1 \<and>
          rect3 257 2 demo_attn_fine \<and> (16::nat) ^ 2 < 257
          \<longrightarrow> (\<exists>st'. edit_forward 1024 demo_edit demo_attn_fine False Mid = Inr (st', demo_attn_fine))"
    by (elim exE conjE) (rule that; assumption)
  from w2 st0(3) have lh2: "lo2 = 0" "hi2 = 20" by simp_all
  have c2: "\<exists>st'. edit_forward 1024 demo_edit demo_attn_fine False Mid = Inr (st', demo_attn_fine)"
    using i2 r2 by (simp add: lh2 st0 demo_attn_fine_def)
  have s20: "num_self_replace (demo_edit\<lparr>cur_step := 20\<rparr>) = num_self_replace demo_edit"
    by simp
  from self_attention_replacement[OF demo_edit_init s20,
      where attn = demo_attn and h = 1 and p = 1 and k = 2 and max_res = 1024 and plc = Mid]
  obtain lo3 hi3 where w3: "num_self_replace (demo_edit\<lparr>cur_step := 20\<rparr>) = (lo3, hi3)"
    and i3: "\<not> (lo3 \<le> cur_step (demo_edit\<lparr>cur_step := 20\<rparr>) \<and>
                cur_step (demo_edit\<lparr>cur_step := 20\<rparr>) < hi3)
          \<longrightarrow> (\<exists>st'. edit_forward 1024 (demo_edit\<lparr>cur_step := 20\<rparr>) demo_attn False Mid =
                 Inr (st', demo_attn))"
    by (elim exE conjE) (rule that; assumption)
  from w3 st0(3) have lh3: "lo3 = 0" "hi3 = 20" by simp_all
  have c3: "\<exists>st'. edit_forward 1024 (demo_edit\<lparr>cur_step := 20\<rparr>) demo_attn False Mid =
      Inr (st', demo_attn)"
    using i3 by (simp add: lh3)
  from b lh c1 c2 c3 show ?thesis by simp
qed

text \<open>
  The window is not the floor of the exact product. For 10 steps and the float \<open>0.7\<close>,
  whose value is just below seven tenths, the exact product is just below 7 and its floor
  is 6, while the float product rounds to \<open>7.0\<close>: the window is \<open>(0, 7)\<close> and step 6 is
  replaced. For 50 steps and the float \<open>0.58\<close>, the double nearest to \<open>58 / 100\<close>, the
  float product is \<open>28.999999999999996\<close>: the window is \<open>(0, 28)\<close> although
  \<open>floor(50 * 58 / 100) = 29\<close>, and step 28 is left as it came in.
\<close>

theorem window_is_not_floor_of_product:
  "self_replace_window 10 (Fraction float_0_7) = Inr (0, 7) \<and>
   \<lfloor>10 * float_value float_0_7\<rfloor> = 6 \<and>
   (\<exists>st st'. edit_init 2 10 [[[1, 1 / 2]]] (Fraction float_0_7) None (Replace [[[0, 1], [1, 0]]])
                = Inr st \<and>
      edit_forward 1024 (st\<lparr>cur_step := 6\<rparr>) demo_attn False Mid =
        Inr (st', [[[1, 0]], [[1, 0]]])) \<and>
   self_replace_window 50 (Fraction float_0_58) = Inr (0, 28) \<and>
   \<bar>float_value float_0_58 - 58 / 100\<bar> < 1 / 2 ^ 54 \<and>
   \<lfloor>50 * (58 / 100 :: real)\<rfloor> = 29 \<and>
   (\<exists>st st'. edit_init 2 50 [[[1, 1 / 2]]] (Fraction float_0_58) None (Replace [[[0, 1], [1, 0]]])
                = Inr st \<and>
      edit_forward 1024 (st\<lparr>cur_step := 28\<rparr>) demo_attn False Mid = Inr (st', demo_attn))"
proof -
  let ?mk = "\<lambda>w c. \<lparr>cur_step = c, num_att_layers = - 1, cur_att_layer = 0,
      step_store = get_empty_store, attention_store = None,
      batch_size = 2, cross_replace_alpha = [[[1, 1 / 2]]],
      num_self_replace = w,
      local_blend = None, kind = Replace [[[0, 1], [1, 0]]]\<rparr> :: edit_control"
  have i7: "edit_init 2 10 [[[1, 1 / 2]]] (Fraction float_0_7) None (Replace [[[0, 1], [1, 0]]])
      = Inr (?mk (0, 7) 0)"
    by (simp add: edit_init_def window_10_0_7)
  have i58: "edit_init 2 50 [[[1, 1 / 2]]] (Fraction float_0_58) None (Replace [[[0, 1], [1, 0]]])
      = Inr (?mk (0, 28) 0)"
    by (simp add: edit_init_def window_50_0_58)
  have r1: "rect3 1 2 demo_attn" by (simp add: rect3_def demo_attn_def)
  have "edit_attention (?mk (0, 7) 6) demo_attn False =
      Inr (concat (replicate (batch_size (?mk (0, 7) 6)) (take 1 demo_attn)))"
    by (rule edit_attention_self(1)[where p = 1 and k = 2]) (simp_all add: rect3_def demo_attn_def)
  then have "edit_attention (?mk (0, 7) 6) demo_attn False = Inr [[[1, 0]], [[1, 0]]]"
    by (simp add: demo_attn_def numeral_2_eq_2)
  then have f7: "\<exists>st'. edit_forward 1024 (?mk (0, 7) 6) demo_attn False Mid =
      Inr (st', [[[1, 0]], [[1, 0]]])"
    by (rule edit_forward_returns)
  have "edit_attention (?mk (0, 28) 28) demo_attn False = Inr demo_attn"
    by (rule edit_attention_outside) simp
  then have f58: "\<exists>st'. edit_forward 1024 (?mk (0, 28) 28) demo_attn False Mid = Inr (st', demo_attn)"
    by (rule edit_forward_returns)
  have fl07: "\<lfloor>10 * float_value float_0_7\<rfloor> = 6"
    by (simp add: float_value_def float_0_7_def)
  have near: "\<bar>float_value float_0_58 - 58 / 100\<bar> < 1 / 2 ^ 54"
    by (simp add: float_value_def float_0_58_def)
  have fl58: "\<lfloor>50 * (58 / 100 :: real)\<rfloor> = 29" by simp
  from f7 have g7: "\<exists>st st'. edit_init 2 10 [[[1, 1 / 2]]] (Fraction float_0_7) None
        (Replace [[[0, 1], [1, 0]]]) = Inr st \<and>
      edit_forward 1024 (st\<lparr>cur_step := 6\<rparr>) demo_attn False Mid = Inr (st', [[[1, 0]], [[1, 0]]])"
    unfolding i7 by auto
  from f58 have g58: "\<exists>st st'. edit_init 2 50 [[[1, 1 / 2]]] (Fraction float_0_58) None
        (Replace [[[0, 1], [1, 0]]]) = Inr st \<and>
      edit_forward 1024 (st\<lparr>cur_step := 28\<rparr>) demo_attn False Mid = Inr (st', demo_attn)"
    unfolding i58 by auto
  show ?thesis
    using window_10_0_7 fl07 g7 window_50_0_58 near fl58 g58 by (intro conjI)
qed

section \<open>Properties of the equalizer and of reweighting\<close>

lemma expand_values_single: "expand_values k [v] = Inr (replicate k v)"
  by (cases "k = 1") (auto simp: expand_values_def)

lemma norm_index_valid:
  "- 77 \<le> i \<Longrightarrow> i < 77 \<Longrightarrow> norm_index 77 i = Inr (resolved_position i)"
  by (auto simp: norm_index_def resolved_position_def)

lemma resolved_position_bound: "- 77 \<le> i \<Longrightarrow> i < 77 \<Longrightarrow> resolved_position i < 77"
  by (auto simp: resolved_position_def)

lemma mapM_norm_index:
  "list_all (\<lambda>i. - 77 \<le> i \<and> i < 77) inds \<Longrightarrow>
   mapM (norm_index 77) inds = Inr (map resolved_position inds)"
  by (rule mapM_Inr) (auto simp: list_all_iff norm_index_valid)

lemma put_cols_replicate:
  "length (put_cols row cols (replicate (length cols) v)) = length row \<and>
   (\<forall>n < length row. (\<forall>c \<in> set cols. c < length row) \<longrightarrow>
      put_cols row cols (replicate (length cols) v) ! n = (if n \<in> set cols then v else row ! n))"
proof (induction cols arbitrary: row)
  case Nil then show ?case by simp
next
  case (Cons c cols)
  note ih = Cons.IH[of "row[c := v]"]
  show ?case
  proof (intro conjI allI impI)
    show "length (put_cols row (c # cols) (replicate (length (c # cols)) v)) = length row"
      using ih by simp
  next
    fix n assume n: "n < length row" and b: "\<forall>x \<in> set (c # cols). x < length row"
    have "put_cols (row[c := v]) cols (replicate (length cols) v) ! n =
        (if n \<in> set cols then v else row[c := v] ! n)"
      using ih n b by simp
    then show "put_cols row (c # cols) (replicate (length (c # cols)) v) ! n =
        (if n \<in> set (c # cols) then v else row ! n)"
      using n b by (auto simp: nth_list_update)
  qed
qed

lemma assign_columns_single:
  assumes "eq_row S v row" "list_all (\<lambda>i. - 77 \<le> i \<and> i < 77) inds"
  shows "\<exists>row'. assign_columns [row] inds [v] = Inr [row'] \<and>
           eq_row (S \<union> resolved_position ` set inds) v row'"
proof -
  let ?cols = "map resolved_position inds"
  let ?row' = "put_cols row ?cols (replicate (length ?cols) v)"
  have a: "assign_columns [row] inds [v] = Inr [?row']"
    by (simp add: assign_columns_def expand_values_single mapM_norm_index[OF assms(2)])
  have lr: "length row = 77" using assms(1) by (simp add: eq_row_def)
  have cb: "\<forall>c \<in> set ?cols. c < length row"
    using assms(2) lr by (auto simp: list_all_iff resolved_position_bound)
  from put_cols_replicate[of row ?cols v] cb
  have l: "length ?row' = length row"
    and e: "\<And>n. n < length row \<Longrightarrow> ?row' ! n = (if n \<in> set ?cols then v else row ! n)"
    by blast+
  have "eq_row (S \<union> resolved_position ` set inds) v ?row'"
    unfolding eq_row_def
  proof (intro conjI allI impI)
    show "length ?row' = 77" using l lr by simp
  next
    fix n :: nat assume n: "n < 77"
    then have "?row' ! n = (if n \<in> set ?cols then v else row ! n)" using e lr by simp
    moreover have "row ! n = (if n \<in> S then v else 1)" using assms(1) n by (simp add: eq_row_def)
    ultimately show "?row' ! n = (if n \<in> S \<union> resolved_position ` set inds then v else 1)"
      by auto
  qed
  with a show ?thesis by blast
qed

lemma equalizer_loop_single:
  assumes "eq_row S v row" "valid_inds word_inds"
  shows "\<exists>row'. equalizer_loop [row] word_inds [v] = Inr [row'] \<and>
           eq_row (S \<union> resolved word_inds) v row'"
  using assms
proof (induction word_inds arbitrary: S row)
  case Nil then show ?case by (simp add: resolved_def)
next
  case (Cons inds rest)
  from Cons.prems(2) have vi: "list_all (\<lambda>i. - 77 \<le> i \<and> i < 77) inds" and vr: "valid_inds rest"
    by (simp_all add: valid_inds_def)
  from assign_columns_single[OF Cons.prems(1) vi]
  obtain row1 where a: "assign_columns [row] inds [v] = Inr [row1]"
    and r1: "eq_row (S \<union> resolved_position ` set inds) v row1" by blast
  from Cons.IH[OF r1 vr]
  obtain row' where l: "equalizer_loop [row1] rest [v] = Inr [row']"
    and r': "eq_row (S \<union> resolved_position ` set inds \<union> resolved rest) v row'" by blast
  have "S \<union> resolved_position ` set inds \<union> resolved rest = S \<union> resolved (inds # rest)"
    by (auto simp: resolved_def)
  with r' a l show ?case by simp
qed

lemma get_equalizer_single:
  assumes "valid_inds word_inds"
  shows "\<exists>row. get_equalizer word_inds [v] = Inr [row] \<and> eq_row (resolved word_inds) v row"
proof -
  have "eq_row {} v (replicate 77 1)" by (simp add: eq_row_def)
  from equalizer_loop_single[OF this assms]
  show ?thesis by (simp add: get_equalizer_def)
qed

lemma bzip_single:
  "bzip f xs [y] = mapM (\<lambda>x. f x y) xs"
proof (cases "length xs = 1")
  case True
  then obtain x where "xs = [x]" by (cases xs) auto
  then show ?thesis by (simp add: bzip_def split: sum.splits)
next
  case False
  then show ?thesis by (simp add: bzip_def)
qed

lemma mul_words_single:
  assumes "rect4 h p k t" "length w = k"
  shows "mul_words t [w] = Inr (map (\<lambda>t3. scale3 t3 w) t)"
proof -
  have f: "\<And>x. x \<in> set t \<Longrightarrow>
      mapM (mapM (\<lambda>v. bzip (\<lambda>x y. Inr (x * y)) v w)) x = Inr (scale3 x w)"
  proof -
    fix x assume x: "x \<in> set t"
    have rx: "rect3 p k x" using rect4D[OF assms(1) x] by simp
    show "mapM (mapM (\<lambda>v. bzip (\<lambda>x y. Inr (x * y)) v w)) x = Inr (scale3 x w)"
      unfolding scale3_def
    proof (rule mapM_Inr)
      fix m assume m: "m \<in> set x"
      show "mapM (\<lambda>v. bzip (\<lambda>x y. Inr (x * y)) v w) m = Inr (map (\<lambda>v. map2 (*) v w) m)"
      proof (rule mapM_Inr)
        fix v assume "v \<in> set m"
        then have "length v = length w" using rect3D[OF rx m] assms(2) by simp
        then show "bzip (\<lambda>x y. Inr (x * y)) v w = Inr (map2 (*) v w)"
          by (rule bzip_same) simp
      qed
    qed
  qed
  have "mul_words t [w] = mapM (\<lambda>x. mapM (mapM (\<lambda>v. bzip (\<lambda>x y. Inr (x * y)) v w)) x) t"
    unfolding mul_words_def by (rule bzip_single)
  also have "\<dots> = Inr (map (\<lambda>t3. scale3 t3 w) t)"
    by (rule mapM_Inr) (rule f)
  finally show ?thesis .
qed


lemma reweight_unfold:
  "replace_cross_attention (Reweight equalizer prev) attn_base att_replace =
     (case reweight_base prev attn_base att_replace of
        Inl e \<Rightarrow> Inl e
      | Inr b \<Rightarrow> mul_words b equalizer)"
  by (cases prev) (simp_all add: reweight_base_def)

lemma reweight_single:
  assumes "reweight_base prev attn_base att_replace = Inr base" "rect4 h p 77 base"
    "eq_row S v row"
  shows "replace_cross_attention (Reweight [row] prev) attn_base att_replace =
           Inr (map (\<lambda>t3. scale3 t3 row) base)"
proof -
  have "length row = 77" using assms(3) by (simp add: eq_row_def)
  from mul_words_single[OF assms(2) this] show ?thesis
    by (simp add: reweight_unfold assms(1))
qed

lemma reweight_single_nth:
  assumes "rect4 h p 77 base" "eq_row S v row" "b < length base" "j < h" "i < p" "n < 77"
  shows "map (\<lambda>t3. scale3 t3 row) base ! b ! j ! i ! n
           = base ! b ! j ! i ! n * (if n \<in> S then v else 1)"
proof -
  have m: "base ! b \<in> set base" using assms(3) by simp
  from rect4D[OF assms(1) m] have lh: "length (base ! b) = h" and r3: "rect3 p 77 (base ! b)"
    by simp_all
  have lr: "length row = 77" and rn: "row ! n = (if n \<in> S then v else 1)"
    using assms(2,6) by (simp_all add: eq_row_def)
  have "scale3 (base ! b) row ! j ! i ! n = base ! b ! j ! i ! n * row ! n"
    using r3 lr _ assms(5,6) by (rule scale3_nth) (simp add: lh assms(4))
  then show ?thesis using assms(3) rn by simp
qed

text \<open>
  C6. With \<open>values = (2.0,)\<close> the equalizer of \<open>get_equalizer\<close> makes
  \<open>AttentionReweight.replace_cross_attention\<close> return, at every token position resolved for
  the selected words, exactly twice what it returns with \<open>values = (1.0,)\<close>, and at every
  other token position the same value: the scaling factor there is 1 under both equalizers.
  The index arrays are within the 77 token positions and the scaled tensor has 77 tokens.
\<close>

theorem equalizer_doubles_selected_tokens:
  assumes "valid_inds word_inds"
    and "reweight_base prev attn_base att_replace = Inr base"
    and "rect4 h p 77 base"
  shows "\<exists>eq1 eq2 r1 r2.
     get_equalizer word_inds [1] = Inr [eq1] \<and> get_equalizer word_inds [2] = Inr [eq2] \<and>
     replace_cross_attention (Reweight [eq1] prev) attn_base att_replace = Inr r1 \<and>
     replace_cross_attention (Reweight [eq2] prev) attn_base att_replace = Inr r2 \<and>
     length eq1 = 77 \<and> length eq2 = 77 \<and> length r1 = length base \<and> length r2 = length base \<and>
     (\<forall>n < 77. eq1 ! n = 1 \<and> eq2 ! n = (if n \<in> resolved word_inds then 2 else 1)) \<and>
     (\<forall>b < length base. \<forall>j < h. \<forall>i < p. \<forall>n < 77.
        r2 ! b ! j ! i ! n =
          (if n \<in> resolved word_inds then 2 * r1 ! b ! j ! i ! n else r1 ! b ! j ! i ! n))"
proof -
  from get_equalizer_single[OF assms(1), of 1]
  obtain eq1 where g1: "get_equalizer word_inds [1] = Inr [eq1]"
    and e1: "eq_row (resolved word_inds) 1 eq1" by blast
  from get_equalizer_single[OF assms(1), of 2]
  obtain eq2 where g2: "get_equalizer word_inds [2] = Inr [eq2]"
    and e2: "eq_row (resolved word_inds) 2 eq2" by blast
  let ?r1 = "map (\<lambda>t3. scale3 t3 eq1) base"
  let ?r2 = "map (\<lambda>t3. scale3 t3 eq2) base"
  have c1: "replace_cross_attention (Reweight [eq1] prev) attn_base att_replace = Inr ?r1"
    using assms(2,3) e1 by (rule reweight_single)
  have c2: "replace_cross_attention (Reweight [eq2] prev) attn_base att_replace = Inr ?r2"
    using assms(2,3) e2 by (rule reweight_single)
  have q: "\<forall>n < 77. eq1 ! n = 1 \<and> eq2 ! n = (if n \<in> resolved word_inds then 2 else 1)"
    using e1 e2 by (simp add: eq_row_def)
  have l: "length eq1 = 77" "length eq2 = 77" using e1 e2 by (simp_all add: eq_row_def)
  have r: "\<forall>b < length base. \<forall>j < h. \<forall>i < p. \<forall>n < 77.
        ?r2 ! b ! j ! i ! n =
          (if n \<in> resolved word_inds then 2 * ?r1 ! b ! j ! i ! n else ?r1 ! b ! j ! i ! n)"
  proof (intro allI impI)
    fix b j i n :: nat
    assume b: "b < length base" and j: "j < h" and i: "i < p" and n: "n < 77"
    have "?r1 ! b ! j ! i ! n = base ! b ! j ! i ! n * (if n \<in> resolved word_inds then 1 else 1)"
      using assms(3) e1 b j i n by (rule reweight_single_nth)
    moreover have "?r2 ! b ! j ! i ! n = base ! b ! j ! i ! n * (if n \<in> resolved word_inds then 2 else 1)"
      using assms(3) e2 b j i n by (rule reweight_single_nth)
    ultimately show "?r2 ! b ! j ! i ! n =
          (if n \<in> resolved word_inds then 2 * ?r1 ! b ! j ! i ! n else ?r1 ! b ! j ! i ! n)"
      by simp
  qed
  show ?thesis
    apply (rule exI[of _ eq1], rule exI[of _ eq2], rule exI[of _ ?r1], rule exI[of _ ?r2])
    using g1 g2 c1 c2 l q r by (simp only: length_map simp_thms)
qed

theorem equalizer_doubles_selected_tokens_witness:
  "\<exists>eq1 eq2 r1 r2.
     get_equalizer [[2, -1]] [1] = Inr [eq1] \<and> get_equalizer [[2, -1]] [2] = Inr [eq2] \<and>
     replace_cross_attention (Reweight [eq1] None) demo_base [] = Inr r1 \<and>
     replace_cross_attention (Reweight [eq2] None) demo_base [] = Inr r2 \<and>
     eq1 ! 2 = 1 \<and> eq2 ! 2 = 2 \<and> eq2 ! 76 = 2 \<and> eq2 ! 3 = 1 \<and>
     r2 ! 0 ! 0 ! 0 ! 2 = 2 * r1 ! 0 ! 0 ! 0 ! 2 \<and>
     r2 ! 0 ! 0 ! 0 ! 76 = 2 * r1 ! 0 ! 0 ! 0 ! 76 \<and>
     r2 ! 0 ! 0 ! 0 ! 3 = r1 ! 0 ! 0 ! 0 ! 3"
proof -
  have v: "valid_inds [[2, -1]]" by (simp add: valid_inds_def)
  have b: "reweight_base None demo_base [] = Inr [demo_base]" by (simp add: reweight_base_def)
  have r: "rect4 1 1 77 [demo_base]" by (simp add: rect4_def rect3_def demo_base_def)
  have s: "resolved [[2, -1]] = {2, 76}" by (simp add: resolved_def resolved_position_def)
  from equalizer_doubles_selected_tokens[OF v b r]
  obtain eq1 eq2 r1 r2 where
    g: "get_equalizer [[2, -1]] [1] = Inr [eq1]" "get_equalizer [[2, -1]] [2] = Inr [eq2]"
      "replace_cross_attention (Reweight [eq1] None) demo_base [] = Inr r1"
      "replace_cross_attention (Reweight [eq2] None) demo_base [] = Inr r2"
    and q: "\<forall>n < 77. eq1 ! n = 1 \<and> eq2 ! n = (if n \<in> resolved [[2, -1]] then 2 else 1)"
    and t: "\<forall>b < length [demo_base]. \<forall>j < 1. \<forall>i < 1. \<forall>n < 77.
        r2 ! b ! j ! i ! n =
          (if n \<in> resolved [[2, -1]] then 2 * r1 ! b ! j ! i ! n else r1 ! b ! j ! i ! n)"
    by (elim exE conjE) (rule that; assumption)
  have q2: "eq1 ! 2 = 1" "eq2 ! 2 = 2" "eq2 ! 76 = 2" "eq2 ! 3 = 1"
    using q[rule_format, of 2] q[rule_format, of 76] q[rule_format, of 3] by (simp_all add: s)
  have t2: "r2 ! 0 ! 0 ! 0 ! 2 = 2 * r1 ! 0 ! 0 ! 0 ! 2"
    "r2 ! 0 ! 0 ! 0 ! 76 = 2 * r1 ! 0 ! 0 ! 0 ! 76"
    "r2 ! 0 ! 0 ! 0 ! 3 = r1 ! 0 ! 0 ! 0 ! 3"
    using t[rule_format, of 0 0 0 2] t[rule_format, of 0 0 0 76] t[rule_format, of 0 0 0 3]
    by (simp_all add: s)
  show ?thesis using g q2 t2 by blast
qed

lemma scale3_rows:
  assumes "rect3 p k x" "length w = k"
  shows "mapM (mapM (\<lambda>v. bzip (\<lambda>x y. Inr (x * y)) v w)) x = Inr (scale3 x w)"
  unfolding scale3_def
proof (rule mapM_Inr)
  fix m assume m: "m \<in> set x"
  show "mapM (\<lambda>v. bzip (\<lambda>x y. Inr (x * y)) v w) m = Inr (map (\<lambda>v. map2 (*) v w) m)"
  proof (rule mapM_Inr)
    fix v assume "v \<in> set m"
    then have "length v = length w" using rect3D[OF assms(1) m] assms(2) by simp
    then show "bzip (\<lambda>x y. Inr (x * y)) v w = Inr (map2 (*) v w)"
      by (rule bzip_same) simp
  qed
qed

lemma bzip_single_left: "bzip f [x] ys = mapM (f x) ys"
proof (cases "length ys = 1")
  case True
  then obtain y where "ys = [y]" by (cases ys) auto
  then show ?thesis by (simp add: bzip_def split: sum.splits)
next
  case False
  then show ?thesis by (simp add: bzip_def)
qed

lemma bzip_mismatch:
  "length xs \<noteq> length ys \<Longrightarrow> length xs \<noteq> 1 \<Longrightarrow> length ys \<noteq> 1 \<Longrightarrow>
   bzip f xs ys = Inl RuntimeError"
  by (simp add: bzip_def)

lemma expand_into_mismatch:
  "length src \<noteq> length dest \<Longrightarrow> length src \<noteq> 1 \<Longrightarrow> expand_into f dest src = Inl RuntimeError"
  by (simp add: expand_into_def)

lemma mul_words_base:
  assumes "rect3 p k base" "rect_words k equalizer"
  shows "mul_words [base] equalizer = Inr (map (scale3 base) equalizer)"
  unfolding mul_words_def bzip_single_left
proof (rule mapM_Inr)
  fix w assume "w \<in> set equalizer"
  then have "length w = k" using assms(2) by (rule rect_wordsD[rotated])
  with assms(1) show "mapM (mapM (\<lambda>v. bzip (\<lambda>x y. Inr (x * y)) v w)) base = Inr (scale3 base w)"
    by (rule scale3_rows)
qed

lemma length_scale3: "length (scale3 t w) = length t"
  by (simp add: scale3_def)

lemma rect4_map_scale:
  assumes "length base = h" "rect3 p k base" "rect_words k equalizer"
  shows "rect4 h p k (map (scale3 base) equalizer)"
proof (rule rect4I)
  fix x assume "x \<in> set (map (scale3 base) equalizer)"
  then obtain w where w: "w \<in> set equalizer" "x = scale3 base w" by auto
  have "length w = k" using assms(3) w(1) by (rule rect_wordsD)
  with assms(1,2) w(2) show "length x = h \<and> rect3 p k x"
    by (simp add: length_scale3 rect3_scale3)
qed

lemma rect4_map_scale_right:
  assumes "rect4 h p k t" "length w = k"
  shows "rect4 h p k (map (\<lambda>x. scale3 x w) t)"
proof (rule rect4I)
  fix y assume "y \<in> set (map (\<lambda>x. scale3 x w) t)"
  then obtain x where x: "x \<in> set t" "y = scale3 x w" by auto
  from rect4D[OF assms(1) x(1)] assms(2) x(2) show "length y = h \<and> rect3 p k y"
    by (simp add: length_scale3 rect3_scale3)
qed

lemma add4_single:
  assumes "rect4 h p k l" "length y = h" "rect3 p k y"
  shows "add4 l [y] = Inr (map (\<lambda>x. map2 (map2 (map2 (+))) x y) l)"
  unfolding add4_def bzip_single
proof (rule mapM_Inr)
  fix x assume "x \<in> set l"
  from rect4D[OF assms(1) this] have "length x = length y" "rect3 p k x"
    using assms(2) by simp_all
  then show "bzip (bzip (bzip (\<lambda>x y. Inr (x + y)))) x y = Inr (map2 (map2 (map2 (+))) x y)"
    using assms(3) by (rule bzip3_add)
qed

lemma edit_attention_cross_unfold:
  assumes n: "0 < batch_size st"
    and len: "length attn = batch_size st * h"
    and alpha: "py_index (cross_replace_alpha st) (cur_step st) = Inr alpha"
    and rc: "replace_cross_attention (kind st) (take h attn)
               (tl (split_batch (batch_size st) h attn)) = Inr rc"
  shows "edit_attention st attn True =
     (case mul_words rc alpha of
        Inl e \<Rightarrow> Inl e
      | Inr l \<Rightarrow>
          (case mul_words (tl (split_batch (batch_size st) h attn)) (one_minus alpha) of
             Inl e \<Rightarrow> Inl e
           | Inr r \<Rightarrow>
               (case add4 l r of
                  Inl e \<Rightarrow> Inl e
                | Inr attn_repalce_new \<Rightarrow>
                    (case assign4 (tl (split_batch (batch_size st) h attn)) attn_repalce_new of
                       Inl e \<Rightarrow> Inl e
                     | Inr edited \<Rightarrow> Inr (concat (take h attn # edited))))))"
proof -
  let ?n = "batch_size st"
  let ?rows = "split_batch ?n h attn"
  have hdiv: "length attn div ?n = h" using n len by simp
  have hd: "hd ?rows = take h attn"
    using split_batch_hd_tl[OF n, of h attn] by (metis list.sel(1))
  show ?thesis
    unfolding edit_attention_def
    using n len
    by (simp add: hdiv Let_def alpha rc hd mult.commute split: sum.splits)
qed


lemma edit_forward_fails:
  "edit_attention st attn c = Inl e \<Longrightarrow> edit_forward mr st attn c p = Inl e"
  by (simp add: edit_forward_def)

lemma reweight_mismatch_fails:
  assumes knd: "kind st = Reweight equalizer None"
    and n: "2 \<le> batch_size st"
    and len: "length attn = batch_size st * h"
    and rect: "rect3 p k attn"
    and alpha: "py_index (cross_replace_alpha st) (cur_step st) = Inr alpha"
    and alpha_shape: "length alpha = batch_size st - 1" "rect_words k alpha"
    and eq_shape: "rect_words k equalizer"
    and mismatch: "length equalizer \<noteq> batch_size st - 1" "length equalizer \<noteq> 1"
  shows "edit_attention st attn True = Inl RuntimeError"
proof -
  let ?n = "batch_size st"
  let ?rows = "split_batch ?n h attn"
  let ?repl = "tl ?rows"
  let ?base = "take h attn"
  let ?rc = "map (scale3 ?base) equalizer"
  have n0: "0 < ?n" using n by simp
  have r4: "rect4 h p k ?rows" using rect4_split_batch[OF _ rect, of ?n h] len by simp
  have rrepl: "rect4 h p k ?repl" using r4 by (rule rect4_tl)
  have lrepl: "length ?repl = ?n - 1" by (simp add: length_split_batch)
  have rows: "?rows = ?base # ?repl" using n0 by (rule split_batch_hd_tl)
  have bm: "?base \<in> set ?rows" by (subst rows) simp
  from rect4D[OF r4 bm] have lb: "length ?base = h" and rb: "rect3 p k ?base" by simp_all
  have rc: "replace_cross_attention (kind st) ?base ?repl = Inr ?rc"
    unfolding knd using mul_words_base[OF rb eq_shape] by simp
  have rrc: "rect4 h p k ?rc" using lb rb eq_shape by (rule rect4_map_scale)
  note u = edit_attention_cross_unfold[OF n0 len alpha rc]
  show ?thesis
  proof (cases "?n - 1 = 1")
    case False
    have "mul_words ?rc alpha = Inl RuntimeError"
      unfolding mul_words_def
      by (rule bzip_mismatch) (use mismatch alpha_shape(1) False in simp_all)
    then show ?thesis unfolding u by simp
  next
    case True
    then obtain a where a: "alpha = [a]" using alpha_shape(1) by (cases alpha) auto
    have la: "length a = k" using alpha_shape(2) a by (simp add: rect_words_def)
    let ?l = "map (\<lambda>x. scale3 x a) ?rc"
    have l: "mul_words ?rc alpha = Inr ?l" unfolding a using rrc la by (rule mul_words_single)
    have rl: "rect4 h p k ?l" using rrc la by (rule rect4_map_scale_right)
    have rw: "rect_words k (one_minus alpha)" using alpha_shape(2) by (rule rect_words_one_minus)
    have lom: "length (one_minus alpha) = ?n - 1" using alpha_shape(1) by (simp add: one_minus_def)
    let ?r = "map2 scale3 ?repl (one_minus alpha)"
    have "length ?repl = length (one_minus alpha)" by (simp only: lrepl lom)
    then have r: "mul_words ?repl (one_minus alpha) = Inr ?r"
      using rrepl rw by (rule mul_words_rect)
    have rr: "rect4 h p k ?r" using rrepl rw by (rule rect4_scale)
    have "length ?r = 1" using lrepl lom True by simp
    then obtain y where y: "?r = [y]" by (cases ?r) auto
    have ym: "y \<in> set ?r" unfolding y by simp
    from rect4D[OF rr ym] have ly: "length y = h" and ry: "rect3 p k y" by simp_all
    let ?new = "map (\<lambda>x. map2 (map2 (map2 (+))) x y) ?l"
    have ad: "add4 ?l ?r = Inr ?new" unfolding y using rl ly ry by (rule add4_single)
    have as: "assign4 ?repl ?new = Inl RuntimeError"
      unfolding assign4_def
      by (rule expand_into_mismatch) (use mismatch lrepl True in simp_all)
    show ?thesis by (simp only: u l r ad as sum.case)
  qed
qed

lemma map2_replicate_left:
  "length ys = n \<Longrightarrow> map2 f (replicate n x) ys = map (f x) ys"
  by (induction ys arbitrary: n) auto

lemma reweight_single_row:
  assumes knd: "kind st = Reweight [w] None"
    and n: "2 \<le> batch_size st"
    and len: "length attn = batch_size st * h"
    and rect: "rect3 p k attn"
    and alpha: "py_index (cross_replace_alpha st) (cur_step st) = Inr alpha"
    and alpha_shape: "length alpha = batch_size st - 1" "rect_words k alpha"
    and eq_shape: "length w = k"
  shows "edit_attention st attn True =
     Inr (take h attn @ concat (map2 (map2 (map2 (map2 (+))))
        (map (scale3 (scale3 (take h attn) w)) alpha)
        (map2 scale3 (tl (split_batch (batch_size st) h attn)) (one_minus alpha))))"
    and "edit_attention (st\<lparr>kind := Reweight (replicate (batch_size st - 1) w) None\<rparr>) attn True =
     Inr (take h attn @ concat (map2 (map2 (map2 (map2 (+))))
        (map (scale3 (scale3 (take h attn) w)) alpha)
        (map2 scale3 (tl (split_batch (batch_size st) h attn)) (one_minus alpha))))"
proof -
  let ?n = "batch_size st"
  let ?rows = "split_batch ?n h attn"
  let ?repl = "tl ?rows"
  let ?base = "take h attn"
  let ?x = "scale3 ?base w"
  let ?L = "map (scale3 ?x) alpha"
  let ?R = "map2 scale3 ?repl (one_minus alpha)"
  let ?S = "map2 (map2 (map2 (map2 (+)))) ?L ?R"
  have n0: "0 < ?n" using n by simp
  have r4: "rect4 h p k ?rows" using rect4_split_batch[OF _ rect, of ?n h] len by simp
  have rrepl: "rect4 h p k ?repl" using r4 by (rule rect4_tl)
  have lrepl: "length ?repl = ?n - 1" by (simp add: length_split_batch)
  have rows: "?rows = ?base # ?repl" using n0 by (rule split_batch_hd_tl)
  have bm: "?base \<in> set ?rows" by (subst rows) simp
  from rect4D[OF r4 bm] have lb: "length ?base = h" and rb: "rect3 p k ?base" by simp_all
  have rx: "rect3 p k ?x" using rb eq_shape by (rule rect3_scale3)
  have lx: "length ?x = h" using lb by (simp add: length_scale3)
  have ew: "rect_words k [w]" using eq_shape by (simp add: rect_words_def)
  have rc: "replace_cross_attention (kind st) ?base ?repl = Inr [?x]"
    unfolding knd using mul_words_base[OF rb ew] by simp
  have l: "mul_words [?x] alpha = Inr ?L" using rx alpha_shape(2) by (rule mul_words_base)
  have rL: "rect4 h p k ?L" using lx rx alpha_shape(2) by (rule rect4_map_scale)
  have rw: "rect_words k (one_minus alpha)" using alpha_shape(2) by (rule rect_words_one_minus)
  have lom: "length (one_minus alpha) = ?n - 1" using alpha_shape(1) by (simp add: one_minus_def)
  have "length ?repl = length (one_minus alpha)" by (simp only: lrepl lom)
  then have r: "mul_words ?repl (one_minus alpha) = Inr ?R"
    using rrepl rw by (rule mul_words_rect)
  have rR: "rect4 h p k ?R" using rrepl rw by (rule rect4_scale)
  have lL: "length ?L = ?n - 1" using alpha_shape(1) by simp
  have lR: "length ?R = ?n - 1" using lrepl lom by simp
  have lLR: "length ?L = length ?R" by (simp only: lL lR)
  have a: "add4 ?L ?R = Inr ?S" using lLR rL rR by (rule add4_rect)
  have rS: "rect4 h p k ?S" using lLR rL rR by (rule rect4_add)
  have lS: "length ?S = ?n - 1" using lL lR by simp
  have "length ?repl = length ?S" by (simp only: lrepl lS)
  then have wr: "assign4 ?repl ?S = Inr ?S" using rrepl rS by (rule assign4_same)
  show "edit_attention st attn True = Inr (?base @ concat ?S)"
    unfolding edit_attention_cross_unfold[OF n0 len alpha rc] by (simp add: l r a wr)
  let ?st2 = "st\<lparr>kind := Reweight (replicate (?n - 1) w) None\<rparr>"
  let ?rcN = "replicate (?n - 1) ?x"
  have ewN: "rect_words k (replicate (?n - 1) w)"
    using eq_shape by (simp add: rect_words_def list_all_iff)
  have rc2: "replace_cross_attention (kind ?st2) ?base (tl (split_batch (batch_size ?st2) h attn))
      = Inr ?rcN"
    using mul_words_base[OF rb ewN] by simp
  have rrcN: "rect4 h p k ?rcN" using lx rx by (rule rect4_replicate)
  have LN: "map2 scale3 ?rcN alpha = ?L"
    using alpha_shape(1) by (rule map2_replicate_left)
  have e2: "edit_attention ?st2 attn True =
      Inr (take h attn @ concat (map2 (map2 (map2 (map2 (+))))
        (map2 scale3 ?rcN alpha)
        (map2 scale3 (tl (split_batch (batch_size ?st2) h attn)) (one_minus alpha))))"
  proof (rule edit_attention_cross)
    show "0 < batch_size ?st2" using n0 by simp
    show "length attn = batch_size ?st2 * h" using len by simp
    show "rect3 p k attn" by fact
    show "py_index (cross_replace_alpha ?st2) (cur_step ?st2) = Inr alpha" using alpha by simp
    show "length alpha = batch_size ?st2 - 1" using alpha_shape(1) by simp
    show "rect_words k alpha" by fact
    show "replace_cross_attention (kind ?st2) ?base (tl (split_batch (batch_size ?st2) h attn))
      = Inr ?rcN" by fact
    show "length ?rcN = batch_size ?st2 - 1" by simp
    show "rect4 h p k ?rcN" by fact
  qed
  have b2: "batch_size ?st2 = ?n" by simp
  show "edit_attention ?st2 attn True = Inr (?base @ concat ?S)"
    using e2 unfolding LN b2 .
qed


text \<open>
  C7. \<open>AttentionReweight\<close> checks nothing when it is built; the equalizer meets the batch
  only in the first cross-attention call. For a controller without a previous controller,
  \<open>N \<ge> 2\<close> prompts, a rectangular tensor and a schedule entry of the edited rows' shape:
  an equalizer whose number of rows is neither the number \<open>N - 1\<close> of edited prompts nor 1
  makes that call fail with the library's shape error; an equalizer of one row does not
  fail: the call returns what it returns for the equalizer with that row repeated for
  every edited prompt.
\<close>

theorem reweight_batch_mismatch:
  assumes knd: "kind st = Reweight equalizer None"
    and n: "2 \<le> batch_size st"
    and len: "length attn = batch_size st * h"
    and rect: "rect3 p k attn"
    and alpha: "py_index (cross_replace_alpha st) (cur_step st) = Inr alpha"
    and alpha_shape: "length alpha = batch_size st - 1" "rect_words k alpha"
    and eq_shape: "rect_words k equalizer"
  shows "(length equalizer \<noteq> batch_size st - 1 \<and> length equalizer \<noteq> 1
          \<longrightarrow> edit_forward max_res st attn True plc = Inl RuntimeError)
       \<and> (length equalizer = 1
          \<longrightarrow> (\<exists>st' out. edit_forward max_res st attn True plc = Inr (st', out) \<and>
                 edit_attention
                   (st\<lparr>kind := Reweight (replicate (batch_size st - 1) (hd equalizer)) None\<rparr>)
                   attn True = Inr out))"
proof (intro conjI impI)
  assume "length equalizer \<noteq> batch_size st - 1 \<and> length equalizer \<noteq> 1"
  then have m: "length equalizer \<noteq> batch_size st - 1" "length equalizer \<noteq> 1" by simp_all
  from reweight_mismatch_fails[OF knd n len rect alpha alpha_shape eq_shape m]
  show "edit_forward max_res st attn True plc = Inl RuntimeError"
    by (rule edit_forward_fails)
next
  assume "length equalizer = 1"
  then obtain w where w: "equalizer = [w]" by (cases equalizer) auto
  have lw: "length w = k" using eq_shape w by (simp add: rect_words_def)
  have knd': "kind st = Reweight [w] None" using knd w by simp
  note s = reweight_single_row[OF knd' n len rect alpha alpha_shape lw]
  from edit_forward_returns[OF s(1)] s(2) w
  show "\<exists>st' out. edit_forward max_res st attn True plc = Inr (st', out) \<and>
                 edit_attention
                   (st\<lparr>kind := Reweight (replicate (batch_size st - 1) (hd equalizer)) None\<rparr>)
                   attn True = Inr out"
    by auto
qed

lemma demo_reweight_facts:
  "kind (demo_reweight eq) = Reweight eq None"
  "2 \<le> batch_size (demo_reweight eq)"
  "length demo_attn3 = batch_size (demo_reweight eq) * 1"
  "rect3 1 2 demo_attn3"
  "py_index (cross_replace_alpha (demo_reweight eq)) (cur_step (demo_reweight eq)) = Inr [[1, 1], [1, 1]]"
  "length [[1, 1], [1, 1 :: real]] = batch_size (demo_reweight eq) - 1"
  "rect_words 2 [[1, 1], [1, 1]]"
  by (simp_all add: demo_reweight_def demo_attn3_def demo_alpha3_def rect3_def rect_words_def
      py_index_def)

theorem reweight_batch_mismatch_witness:
  "edit_forward 1024 (demo_reweight [[2, 1], [1, 1], [1, 2]]) demo_attn3 True Down = Inl RuntimeError \<and>
   (\<exists>st' out. edit_forward 1024 (demo_reweight [[2, 1]]) demo_attn3 True Down = Inr (st', out) \<and>
      edit_attention (demo_reweight [[2, 1], [2, 1]]) demo_attn3 True = Inr out)"
proof
  have e3: "rect_words 2 [[2, 1], [1, 1], [1, 2 :: real]]" by (simp add: rect_words_def)
  from reweight_batch_mismatch[OF demo_reweight_facts e3,
      where max_res = 1024 and plc = Down, THEN conjunct1]
  show "edit_forward 1024 (demo_reweight [[2, 1], [1, 1], [1, 2]]) demo_attn3 True Down
      = Inl RuntimeError"
    by (simp add: demo_reweight_def)
next
  have e1: "rect_words 2 [[2, 1 :: real]]" by (simp add: rect_words_def)
  have u: "(demo_reweight [[2, 1]])\<lparr>kind :=
      Reweight (replicate (batch_size (demo_reweight [[2, 1]]) - 1) (hd [[2, 1]])) None\<rparr>
      = demo_reweight [[2, 1], [2, 1]]"
    by (simp add: demo_reweight_def numeral_eq_Suc)
  from reweight_batch_mismatch[OF demo_reweight_facts e1,
      where max_res = 1024 and plc = Down, THEN conjunct2]
  show "\<exists>st' out. edit_forward 1024 (demo_reweight [[2, 1]]) demo_attn3 True Down = Inr (st', out) \<and>
      edit_attention (demo_reweight [[2, 1], [2, 1]]) demo_attn3 True = Inr out"
    unfolding u by simp
qed

text \<open>
  An equalizer of one row for two edited prompts: the constructor returns the controller
  and the first cross-attention call returns a tensor, in which the one row has scaled
  the source attention for both edited prompts.
\<close>

theorem single_row_equalizer_is_broadcast:
  "edit_init 3 50 demo_alpha3 (Fraction float_0_4) None (Reweight [[2, 1]] None)
     = Inr (demo_reweight [[2, 1]]) \<and>
   length [[2, 1 :: real]] \<noteq> batch_size (demo_reweight [[2, 1]]) - 1 \<and>
   (\<exists>st'. edit_forward 1024 (demo_reweight [[2, 1]]) demo_attn3 True Down =
      Inr (st', [[[1 / 2, 1 / 2]], [[1, 1 / 2]], [[1, 1 / 2]]]))"
proof (intro conjI)
  show "edit_init 3 50 demo_alpha3 (Fraction float_0_4) None (Reweight [[2, 1]] None)
     = Inr (demo_reweight [[2, 1]])"
    by (simp add: edit_init_def window_50_0_4 demo_reweight_def)
  show "length [[2, 1 :: real]] \<noteq> batch_size (demo_reweight [[2, 1]]) - 1"
    by (simp add: demo_reweight_def)
  have sb: "split_batch 3 (Suc 0) [[[1 / 2, 1 / 2]], [[1 / 4, 3 / 4]], [[3 / 4, 1 / 4]]]
      = [[[[1 / 2, 1 / 2]]], [[[1 / 4, 3 / 4]]], [[[3 / 4, 1 / 4 :: real]]]]"
    by (simp add: split_batch_def upt_rec numeral_eq_Suc)
  have "edit_attention (demo_reweight [[2, 1]]) demo_attn3 True =
     Inr (take 1 demo_attn3 @ concat (map2 (map2 (map2 (map2 (+))))
        (map (scale3 (scale3 (take 1 demo_attn3) [2, 1])) [[1, 1], [1, 1]])
        (map2 scale3 (tl (split_batch (batch_size (demo_reweight [[2, 1]])) 1 demo_attn3))
           (one_minus [[1, 1], [1, 1]]))))"
    by (rule reweight_single_row(1)[OF demo_reweight_facts]) simp
  then have "edit_attention (demo_reweight [[2, 1]]) demo_attn3 True =
      Inr [[[1 / 2, 1 / 2]], [[1, 1 / 2]], [[1, 1 / 2]]]"
    by (simp add: demo_attn3_def demo_reweight_def sb scale3_def one_minus_def)
  then show "\<exists>st'. edit_forward 1024 (demo_reweight [[2, 1]]) demo_attn3 True Down =
      Inr (st', [[[1 / 2, 1 / 2]], [[1, 1 / 2]], [[1, 1 / 2]]])"
    by (rule edit_forward_returns)
qed

section \<open>Properties of LocalBlend\<close>

lemma concat_replicate_replicate: "concat (replicate a (replicate b c)) = replicate (a * b) c"
  by (induction a) (simp_all add: replicate_add)

lemma map_const_upt: "map (\<lambda>i. x) [0..<m] = replicate m x"
  by (simp add: map_replicate_const)

lemma split_batch_replicate:
  "split_batch m k (replicate (m * k) c) = replicate m (replicate k c)"
proof -
  have "take k (drop (i * k) (replicate (m * k) c)) = replicate k c" if "i < m" for i
  proof -
    have "(i + 1) * k \<le> m * k" using that by (intro mult_le_mono1) simp
    then have "k \<le> m * k - i * k" by (simp add: algebra_simps)
    then show ?thesis by (simp add: min_def)
  qed
  then have "map (\<lambda>i. take k (drop (i * k) (replicate (m * k) c))) [0..<m]
      = map (\<lambda>i. replicate k c) [0..<m]"
    by (intro map_cong) simp_all
  then show ?thesis by (simp add: split_batch_def map_replicate_const)
qed

lemma mapM_length: "mapM f xs = Inr ys \<Longrightarrow> length ys = length xs"
  by (induction xs arbitrary: ys) (auto split: sum.splits)

lemma mapM_nth: "mapM f xs = Inr ys \<Longrightarrow> i < length xs \<Longrightarrow> f (xs ! i) = Inr (ys ! i)"
proof (induction xs arbitrary: ys i)
  case Nil then show ?case by simp
next
  case (Cons x xs)
  then show ?case by (cases i) (auto split: sum.splits)
qed

lemma reshape_maps_const:
  assumes "0 < n" "0 < h"
  shows "reshape_maps n (replicate (n * h) (replicate 256 (replicate 77 c)))
     = Inr (replicate n (replicate h (replicate 16 (replicate 16 (replicate 77 c)))))"
proof -
  let ?flat = "replicate (n * h * 256 * 77) c"
  have f: "concat (concat (replicate (n * h) (replicate 256 (replicate 77 c)))) = ?flat"
    by (simp add: concat_replicate_replicate)
  have u: "16 * 16 * MAX_NUM_WORDS = 19712" by (simp add: MAX_NUM_WORDS_def)
  have ne: "?flat \<noteq> []" using assms by simp
  have l: "length ?flat = n * (h * 19712)" by simp
  have m: "length ?flat mod (n * 19712) = 0" by (simp add: l)
  have d1: "length ?flat div (n * 19712) = h" using assms by (simp add: l)
  have d2: "length ?flat div n = h * 19712" using assms by simp
  have s1: "split_batch n (h * 19712) ?flat = replicate n (replicate (h * 19712) c)"
    using split_batch_replicate[of n "h * 19712" c] by (simp add: algebra_simps)
  have s2: "split_batch h 19712 (replicate (h * 19712) c) = replicate h (replicate 19712 c)"
    by (rule split_batch_replicate)
  have s3: "split_batch 16 (16 * 77) (replicate 19712 c) = replicate 16 (replicate (16 * 77) c)"
    using split_batch_replicate[of 16 "16 * 77" c] by simp
  have s4: "split_batch 16 77 (replicate (16 * 77) c) = replicate 16 (replicate 77 c)"
    by (rule split_batch_replicate)
  show ?thesis
    unfolding reshape_maps_def f u Let_def
    using m by (simp only: d1 d2 s1 s2 s3 s4 MAX_NUM_WORDS_def map_replicate if_False
        assms simp_thms less_irrefl) (use assms in simp)
qed


lemma cat_heads_const:
  assumes "0 < k"
  shows "cat_heads n (replicate k (replicate n (replicate h P)))
     = Inr (replicate n (replicate (k * h) P))"
proof -
  have "map (\<lambda>b. concat (map (\<lambda>item. item ! b) (replicate k (replicate n (replicate h P))))) [0..<n]
      = map (\<lambda>b. replicate (k * h) P) [0..<n]"
    by (intro map_cong) (simp_all add: concat_replicate_replicate)
  then show ?thesis using assms by (simp add: cat_heads_def map_replicate_const)
qed

lemma sum_list_map2_const:
  "length a = n \<Longrightarrow> sum_list (map2 (*) (replicate n c) a) = c * sum_list (a :: real list)"
proof (induction a arbitrary: n)
  case Nil then show ?case by simp
next
  case (Cons x a)
  then obtain m where "n = Suc m" by (cases n) auto
  with Cons show ?case by (simp add: algebra_simps)
qed

lemma dot_const:
  assumes "length a = n"
  shows "dot (replicate n c) a = Inr (c * sum_list a)"
proof -
  have "bzip (\<lambda>x y. Inr (x * y)) (replicate n c) a = Inr (map2 (*) (replicate n c) a)"
    by (rule bzip_same) (simp_all add: assms)
  then show ?thesis by (simp add: dot_def sum_list_map2_const[OF assms])
qed

lemma word_sum_const:
  assumes "length alpha = n" "rect_words 77 alpha"
  shows "word_sum (replicate n (replicate A (replicate 16 (replicate 16 (replicate 77 c))))) alpha
     = Inr (map (\<lambda>a. replicate A (replicate 16 (replicate 16 (c * sum_list a)))) alpha)"
proof -
  let ?m = "replicate A (replicate 16 (replicate 16 (replicate 77 c)))"
  have "bzip (\<lambda>m a. if length a \<noteq> MAX_NUM_WORDS \<and> length a \<noteq> 1 then Inl RuntimeError
                 else mapM (mapM (mapM (\<lambda>v. dot v a))) m) (replicate n ?m) alpha
      = Inr (map2 (\<lambda>m a. replicate A (replicate 16 (replicate 16 (c * sum_list a))))
               (replicate n ?m) alpha)"
  proof (rule bzip_same)
    show "length (replicate n ?m) = length alpha" using assms(1) by simp
  next
    fix x y assume "(x, y) \<in> set (zip (replicate n ?m) alpha)"
    then have x: "x = ?m" and y: "y \<in> set alpha"
      by (auto dest: set_zip_leftD set_zip_rightD)
    have ly: "length y = 77" using assms(2) y by (rule rect_wordsD)
    have d: "dot (replicate 77 c) y = Inr (c * sum_list y)" using ly by (rule dot_const)
    have m1: "mapM (\<lambda>v. dot v y) (replicate 16 (replicate 77 c))
        = Inr (map (\<lambda>v. c * sum_list y) (replicate 16 (replicate 77 c)))"
      by (rule mapM_Inr) (simp add: d)
    have m2: "mapM (mapM (\<lambda>v. dot v y)) (replicate 16 (replicate 16 (replicate 77 c)))
        = Inr (map (\<lambda>r. replicate 16 (c * sum_list y)) (replicate 16 (replicate 16 (replicate 77 c))))"
      by (rule mapM_Inr) (use m1 in simp)
    have m3: "mapM (mapM (mapM (\<lambda>v. dot v y))) ?m
        = Inr (map (\<lambda>r. replicate 16 (replicate 16 (c * sum_list y))) ?m)"
      by (rule mapM_Inr) (use m2 in simp)
    have w: "\<not> (length y \<noteq> MAX_NUM_WORDS \<and> length y \<noteq> 1)"
      using ly by (simp add: MAX_NUM_WORDS_def)
    show "(if length y \<noteq> MAX_NUM_WORDS \<and> length y \<noteq> 1 then Inl RuntimeError
           else mapM (mapM (mapM (\<lambda>v. dot v y))) x) =
        Inr (replicate A (replicate 16 (replicate 16 (c * sum_list y))))"
      unfolding x if_not_P[OF w] m3 by simp
  qed
  moreover have "map2 (\<lambda>m a. replicate A (replicate 16 (replicate 16 (c * sum_list a))))
               (replicate n ?m) alpha
      = map (\<lambda>a. replicate A (replicate 16 (replicate 16 (c * sum_list a)))) alpha"
    using assms(1) by (rule map2_replicate_left)
  ultimately show ?thesis unfolding word_sum_def by (simp only:)
qed

lemma mean_heads_const:
  assumes "0 < A"
  shows "mean_heads (replicate A (replicate 16 (replicate 16 v))) = replicate 16 (replicate 16 v)"
proof -
  have "map (\<lambda>i. map (\<lambda>j. sum_list (map (\<lambda>a. a ! i ! j) (replicate A (replicate 16 (replicate 16 v))))
        / real (length (replicate A (replicate 16 (replicate 16 v))))) [0..<16]) [0..<16]
      = map (\<lambda>i. map (\<lambda>j. v) [0..<16]) [0..<16]"
    by (intro map_cong refl) (use assms in \<open>simp add: sum_list_replicate\<close>)
  then show ?thesis unfolding mean_heads_def by (simp add: map_replicate_const)
qed

text \<open>The saliency maps of a store whose selected items all hold one value.\<close>

lemma word_maps_const:
  assumes "0 < length alpha" "rect_words 77 alpha" "0 < h" "0 < k"
  shows "word_maps alpha (replicate k (replicate (length alpha * h) (replicate 256 (replicate 77 c))))
     = Inr (map (\<lambda>a. replicate 16 (replicate 16 (c * sum_list a))) alpha)"
proof -
  let ?n = "length alpha"
  let ?item = "replicate (?n * h) (replicate 256 (replicate 77 c))"
  let ?r = "replicate ?n (replicate h (replicate 16 (replicate 16 (replicate 77 c))))"
  have a: "mapM (reshape_maps ?n) (replicate k ?item) = Inr (map (\<lambda>i. ?r) (replicate k ?item))"
    by (rule mapM_Inr) (simp add: reshape_maps_const[OF assms(1,3)])
  have b: "cat_heads ?n (replicate k ?r)
      = Inr (replicate ?n (replicate (k * h) (replicate 16 (replicate 16 (replicate 77 c)))))"
    using assms(4) by (rule cat_heads_const)
  have c: "word_sum (replicate ?n (replicate (k * h) (replicate 16 (replicate 16 (replicate 77 c))))) alpha
      = Inr (map (\<lambda>a. replicate (k * h) (replicate 16 (replicate 16 (c * sum_list a)))) alpha)"
    using refl assms(2) by (rule word_sum_const)
  have kh: "0 < k * h" using assms by simp
  show ?thesis
    unfolding word_maps_def a
    by (simp add: b c mean_heads_const[OF kh] comp_def)
qed

lemma word_maps_length:
  assumes "word_maps alpha items = Inr maps"
  shows "length maps = length alpha"
proof -
  from assms obtain reshaped cm s where
    c: "cat_heads (length alpha) reshaped = Inr cm"
    and w: "word_sum cm alpha = Inr s" and m: "maps = map mean_heads s"
    unfolding word_maps_def by (auto split: sum.splits)
  from c have lc: "length cm = length alpha"
    by (auto simp: cat_heads_def split: if_splits)
  from w lc have "length s = length alpha"
    unfolding word_sum_def bzip_def by (auto dest: mapM_length)
  with m show ?thesis by simp
qed

lemma maximum_const: "0 < n \<Longrightarrow> maximum (replicate n v) = v"
proof -
  have "foldl max v (replicate m v) = v" for m by (induction m) simp_all
  moreover assume "0 < n"
  then obtain m where "n = Suc m" by (cases n) auto
  ultimately show ?thesis by (simp add: maximum_def)
qed

lemma maximum_all_equal:
  assumes "xs \<noteq> []" "\<forall>x \<in> set xs. x = v"
  shows "maximum xs = v"
proof -
  have "xs = replicate (length xs) v" using assms(2) by (simp add: replicate_length_same)
  then show ?thesis using maximum_const[of "length xs" v] assms(1) by simp
qed

lemma window_nonempty: "i < n \<Longrightarrow> window i n \<noteq> []"
  by (auto simp: window_def filter_empty_conv intro!: bexI[of _ i])

lemma window_bound: "q \<in> set (window i n) \<Longrightarrow> q < n"
  by (simp add: window_def)

lemma max_pool2d_const:
  "max_pool2d (replicate R (replicate C v)) = replicate R (replicate C v)"
proof -
  let ?m = "replicate R (replicate C v)"
  have cell: "maximum (concat (map (\<lambda>i'. map (\<lambda>j'. ?m ! i' ! j') (window j C)) (window i R))) = v"
    if i: "i < R" and j: "j < C" for i j
  proof (rule maximum_all_equal)
    have "window i R \<noteq> []" "window j C \<noteq> []" using i j by (simp_all add: window_nonempty)
    then show "concat (map (\<lambda>i'. map (\<lambda>j'. ?m ! i' ! j') (window j C)) (window i R)) \<noteq> []"
      by (cases "window i R") auto
    show "\<forall>x\<in>set (concat (map (\<lambda>i'. map (\<lambda>j'. ?m ! i' ! j') (window j C)) (window i R))). x = v"
      by (auto dest!: window_bound)
  qed
  have "max_pool2d ?m = map (\<lambda>i. map (\<lambda>j. v) [0..<C]) [0..<R]"
    unfolding max_pool2d_def length_replicate
  proof (rule map_cong[OF refl])
    fix i assume "i \<in> set [0..<R]"
    then have i: "i < R" by simp
    have li: "length (?m ! i) = C" using i by simp
    show "map (\<lambda>j. maximum (concat (map (\<lambda>i'. map (\<lambda>j'. ?m ! i' ! j') (window j (length (?m ! i))))
                                               (window i R))))
                   [0..<length (?m ! i)] = map (\<lambda>j. v) [0..<C]"
      unfolding li
    proof (rule map_cong[OF refl])
      fix j assume "j \<in> set [0..<C]"
      then have j: "j < C" by simp
      show "maximum (concat (map (\<lambda>i'. map (\<lambda>j'. ?m ! i' ! j') (window j C)) (window i R))) = v"
        using i j by (rule cell)
    qed
  qed
  then show ?thesis by (simp add: map_replicate_const)
qed

lemma interpolate_const:
  assumes "0 < R" "\<forall>i < H. nearest i R H < R" "\<forall>j < W. nearest j C W < C"
  shows "interpolate nearest H W (replicate R (replicate C v)) = replicate H (replicate W v)"
proof -
  have e: "extent1 (replicate R (replicate C v)) = C"
    using assms(1) by (cases R) (simp_all add: extent1_def)
  have "map (\<lambda>i. map (\<lambda>j. replicate R (replicate C v) ! nearest i R H ! nearest j C W) [0..<W]) [0..<H]
      = map (\<lambda>i. map (\<lambda>j. v) [0..<W]) [0..<H]"
    by (intro map_cong refl) (use assms in simp)
  then show ?thesis by (simp add: interpolate_def e map_replicate_const)
qed

lemma map_max_const:
  assumes "0 < H" "0 < W"
  shows "map_max (replicate H (replicate W v)) = v"
proof -
  have e: "extent1 (replicate H (replicate W v)) = W"
    using assms(1) by (cases H) (simp_all add: extent1_def)
  have "map (\<lambda>j. maximum (map (\<lambda>row. row ! j) (replicate H (replicate W v)))) [0..<W]
      = map (\<lambda>j. v) [0..<W]"
    by (intro map_cong refl) (use assms in \<open>simp add: maximum_const\<close>)
  then show ?thesis unfolding map_max_def e using assms(2)
    by (simp add: map_replicate_const maximum_const)
qed

lemma normalize_gt_const:
  assumes "0 < H" "0 < W"
  shows "normalize_gt thr (replicate H (replicate W v))
     = Inr (replicate H (replicate W (fgt (fdiv v v) thr)))"
proof -
  have e: "extent1 (replicate H (replicate W v)) = W"
    using assms(1) by (cases H) (simp_all add: extent1_def)
  show ?thesis
    unfolding normalize_gt_def map_max_const[OF assms] e using assms by simp
qed

lemma interpolate_shape:
  "length (interpolate nearest H W m) = H"
  "row \<in> set (interpolate nearest H W m) \<Longrightarrow> length row = W"
  by (auto simp: interpolate_def)

lemma normalize_gt_eq:
  "normalize_gt thr m = Inr b \<Longrightarrow> b = map (map (\<lambda>x. fgt (fdiv x (map_max m)) thr)) m"
  by (auto simp: normalize_gt_def split: if_splits)


lemma union_stable_eq: "union_stable bs = Inr (map (or2 (hd bs)) (drop 1 bs))"
proof (cases bs)
  case Nil then show ?thesis by (simp add: union_stable_def bzip_def)
next
  case (Cons a rest)
  have "bzip (\<lambda>a b. Inr (or2 a b)) [a] rest = mapM (\<lambda>b. Inr (or2 a b)) rest"
    by (rule bzip_single_left)
  also have "\<dots> = Inr (map (or2 a) rest)" by (rule mapM_Inr) simp
  finally show ?thesis by (simp add: union_stable_def Cons)
qed


lemma blend_single:
  assumes "x_t \<noteq> []"
  shows "blend x_t [m] =
     Inr (map (\<lambda>x. map2 (map2 (map2 (+))) (hd x_t)
                  (map (\<lambda>channel. map2 (map2 (*)) m channel)
                     (map2 (map2 (map2 (-))) x (hd x_t)))) x_t)"
proof -
  let ?x0 = "hd x_t"
  have t: "take 1 x_t = [?x0]" using assms by (cases x_t) simp_all
  have d: "bzip (\<lambda>x s. Inr (map2 (map2 (map2 (-))) x s)) x_t [?x0]
      = Inr (map (\<lambda>x. map2 (map2 (map2 (-))) x ?x0) x_t)"
    unfolding bzip_single by (rule mapM_Inr) simp
  have p: "bzip (\<lambda>m d. Inr (map (\<lambda>channel. map2 (map2 (*)) m channel) d)) [m] ds
      = Inr (map (\<lambda>d. map (\<lambda>channel. map2 (map2 (*)) m channel) d) ds)" for ds
    unfolding bzip_single_left by (rule mapM_Inr) simp
  have a: "bzip (\<lambda>s q. Inr (map2 (map2 (map2 (+))) s q)) [?x0] qs
      = Inr (map (\<lambda>q. map2 (map2 (map2 (+))) ?x0 q) qs)" for qs
    unfolding bzip_single_left by (rule mapM_Inr) simp
  show ?thesis unfolding blend_def t d by (simp add: p a comp_def)
qed

lemma blend_mismatch:
  assumes "x_t \<noteq> []" "length msk \<noteq> length x_t" "length msk \<noteq> 1" "length x_t \<noteq> 1"
  shows "blend x_t msk = Inl RuntimeError"
proof -
  let ?x0 = "hd x_t"
  have t: "take 1 x_t = [?x0]" using assms(1) by (cases x_t) simp_all
  have d: "bzip (\<lambda>x s. Inr (map2 (map2 (map2 (-))) x s)) x_t [?x0]
      = Inr (map (\<lambda>x. map2 (map2 (map2 (-))) x ?x0) x_t)"
    unfolding bzip_single by (rule mapM_Inr) simp
  have "bzip (\<lambda>m d. Inr (map (\<lambda>channel. map2 (map2 (*)) m channel) d)) msk
          (map (\<lambda>x. map2 (map2 (map2 (-))) x ?x0) x_t) = Inl RuntimeError"
    by (rule bzip_mismatch) (use assms in simp_all)
  then show ?thesis unfolding blend_def t d by simp
qed

lemma blend_no_mask:
  assumes "length x_t = 1"
  shows "blend x_t [] = Inr []"
proof -
  from assms obtain x0 where x: "x_t = [x0]" by (cases x_t) auto
  show ?thesis unfolding blend_def x by (simp add: bzip_def)
qed

lemma vec_blend_one:
  fixes a b :: "real list"
  assumes "length a = W" "length b = W"
  shows "map2 (+) b (map2 (*) (replicate W 1) (map2 (-) a b)) = a"
  using assms by (intro nth_equalityI) simp_all

lemma vec_blend_zero:
  fixes a b :: "real list"
  assumes "length a = W" "length b = W"
  shows "map2 (+) b (map2 (*) (replicate W 0) (map2 (-) a b)) = b"
  using assms by (intro nth_equalityI) simp_all

lemma mat_blend_one:
  fixes A B :: mat
  assumes "length A = H" "\<forall>row \<in> set A. length row = W"
    and "length B = H" "\<forall>row \<in> set B. length row = W"
  shows "map2 (map2 (+)) B (map2 (map2 (*)) (replicate H (replicate W 1)) (map2 (map2 (-)) A B)) = A"
  using assms by (intro nth_equalityI) (simp_all add: vec_blend_one)

lemma mat_blend_zero:
  fixes A B :: mat
  assumes "length A = H" "\<forall>row \<in> set A. length row = W"
    and "length B = H" "\<forall>row \<in> set B. length row = W"
  shows "map2 (map2 (+)) B (map2 (map2 (*)) (replicate H (replicate W 0)) (map2 (map2 (-)) A B)) = B"
  using assms by (intro nth_equalityI) (simp_all add: vec_blend_zero)

lemma latent_blend_one:
  fixes X X0 :: tensor3
  assumes "length X = C" "rect3 H W X" "length X0 = C" "rect3 H W X0"
  shows "map2 (map2 (map2 (+))) X0
           (map (\<lambda>channel. map2 (map2 (*)) (replicate H (replicate W 1)) channel)
              (map2 (map2 (map2 (-))) X X0)) = X"
proof (rule nth_equalityI)
  show "length (map2 (map2 (map2 (+))) X0
           (map (\<lambda>channel. map2 (map2 (*)) (replicate H (replicate W 1)) channel)
              (map2 (map2 (map2 (-))) X X0))) = length X"
    using assms by simp
next
  fix i assume "i < length (map2 (map2 (map2 (+))) X0
           (map (\<lambda>channel. map2 (map2 (*)) (replicate H (replicate W 1)) channel)
              (map2 (map2 (map2 (-))) X X0)))"
  then have i: "i < C" using assms by simp
  have a: "X ! i \<in> set X" "X0 ! i \<in> set X0" using i assms by simp_all
  have rx: "length (X ! i) = H" "\<forall>row \<in> set (X ! i). length row = W"
    using rect3D[OF assms(2) a(1)] by simp_all
  have r0: "length (X0 ! i) = H" "\<forall>row \<in> set (X0 ! i). length row = W"
    using rect3D[OF assms(4) a(2)] by simp_all
  have "map2 (map2 (+)) (X0 ! i) (map2 (map2 (*)) (replicate H (replicate W 1))
          (map2 (map2 (-)) (X ! i) (X0 ! i))) = X ! i"
    using rx r0 by (rule mat_blend_one)
  then show "map2 (map2 (map2 (+))) X0
           (map (\<lambda>channel. map2 (map2 (*)) (replicate H (replicate W 1)) channel)
              (map2 (map2 (map2 (-))) X X0)) ! i = X ! i"
    using i assms by simp
qed

lemma latent_blend_zero:
  fixes X X0 :: tensor3
  assumes "length X = C" "rect3 H W X" "length X0 = C" "rect3 H W X0"
  shows "map2 (map2 (map2 (+))) X0
           (map (\<lambda>channel. map2 (map2 (*)) (replicate H (replicate W 0)) channel)
              (map2 (map2 (map2 (-))) X X0)) = X0"
proof (rule nth_equalityI)
  show "length (map2 (map2 (map2 (+))) X0
           (map (\<lambda>channel. map2 (map2 (*)) (replicate H (replicate W 0)) channel)
              (map2 (map2 (map2 (-))) X X0))) = length X0"
    using assms by simp
next
  fix i assume "i < length (map2 (map2 (map2 (+))) X0
           (map (\<lambda>channel. map2 (map2 (*)) (replicate H (replicate W 0)) channel)
              (map2 (map2 (map2 (-))) X X0)))"
  then have i: "i < C" using assms by simp
  have a: "X ! i \<in> set X" "X0 ! i \<in> set X0" using i assms by simp_all
  have rx: "length (X ! i) = H" "\<forall>row \<in> set (X ! i). length row = W"
    using rect3D[OF assms(2) a(1)] by simp_all
  have r0: "length (X0 ! i) = H" "\<forall>row \<in> set (X0 ! i). length row = W"
    using rect3D[OF assms(4) a(2)] by simp_all
  have "map2 (map2 (+)) (X0 ! i) (map2 (map2 (*)) (replicate H (replicate W 0))
          (map2 (map2 (-)) (X ! i) (X0 ! i))) = X0 ! i"
    using rx r0 by (rule mat_blend_zero)
  then show "map2 (map2 (map2 (+))) X0
           (map (\<lambda>channel. map2 (map2 (*)) (replicate H (replicate W 0)) channel)
              (map2 (map2 (map2 (-))) X X0)) ! i = X0 ! i"
    using i assms by simp
qed


lemma or2_shape:
  assumes "length a = H" "\<forall>row \<in> set a. length row = W"
    and "length b = H" "\<forall>row \<in> set b. length row = W"
  shows "length (or2 a b) = H" and "\<forall>row \<in> set (or2 a b). length row = W"
proof -
  show "length (or2 a b) = H" using assms by (simp add: or2_def)
  show "\<forall>row \<in> set (or2 a b). length row = W"
  proof
    fix row assume "row \<in> set (or2 a b)"
    then obtain x y where xy: "(x, y) \<in> set (zip a b)" and r: "row = map2 (\<or>) x y"
      unfolding or2_def by auto
    from xy have "x \<in> set a" "y \<in> set b" by (auto dest: set_zip_leftD set_zip_rightD)
    with assms r show "length row = W" by simp
  qed
qed

lemma saliency_stable_shape:
  assumes "saliency_stable nearest lb x_t s = Inr resized"
  shows "length resized = length (alpha_layers lb)"
    and "\<forall>r \<in> set resized. length r = latent_height x_t \<and>
           (\<forall>row \<in> set r. length row = latent_width x_t)"
proof -
  from assms obtain maps where w: "word_maps (alpha_layers lb) (select_stable s) = Inr maps"
    and r: "resized = map (interpolate nearest (latent_height x_t) (latent_width x_t))
        (map max_pool2d maps)"
    unfolding saliency_stable_def by (auto simp: Let_def split: sum.splits)
  show "length resized = length (alpha_layers lb)"
    using word_maps_length[OF w] r by simp
  show "\<forall>r \<in> set resized. length r = latent_height x_t \<and>
           (\<forall>row \<in> set r. length row = latent_width x_t)"
    unfolding r by (auto simp: interpolate_shape)
qed

lemma saliency_ldm_shape:
  assumes "saliency_ldm nearest lb x_t s = Inr resized"
  shows "length resized = length (alpha_layers lb)"
    and "\<forall>r \<in> set resized. length r = latent_height x_t \<and>
           (\<forall>row \<in> set r. length row = latent_width x_t)"
proof -
  from assms obtain maps where w: "word_maps (alpha_layers lb) (select_ldm s) = Inr maps"
    and r: "resized = map (interpolate nearest (latent_height x_t) (latent_width x_t)) maps"
    unfolding saliency_ldm_def by (auto split: sum.splits)
  show "length resized = length (alpha_layers lb)"
    using word_maps_length[OF w] r by simp
  show "\<forall>r \<in> set resized. length r = latent_height x_t \<and>
           (\<forall>row \<in> set r. length row = latent_width x_t)"
    unfolding r by (auto simp: interpolate_shape)
qed

lemma nan_gt_eq: "nan_gt m = Inr b \<Longrightarrow> b = map (map (\<lambda>x. False)) m"
  by (auto simp: nan_gt_def split: if_splits)

lemma threshold_maps_heads:
  "\<not> nan \<Longrightarrow> threshold_maps thr nan resized = mapM (normalize_gt thr) resized"
  by (simp add: threshold_maps_def)

lemma thresholded_shape:
  assumes "threshold_maps thr nan resized = Inr bs"
    and "\<forall>r \<in> set resized. length r = H \<and> (\<forall>row \<in> set r. length row = W)"
  shows "length bs = length resized"
    and "\<forall>b \<in> set bs. length b = H \<and> (\<forall>row \<in> set b. length row = W)"
proof -
  let ?f = "if nan then nan_gt else normalize_gt thr"
  have m: "mapM ?f resized = Inr bs" using assms(1) by (cases nan) (simp_all add: threshold_maps_def)
  show l: "length bs = length resized" using m by (rule mapM_length)
  show "\<forall>b \<in> set bs. length b = H \<and> (\<forall>row \<in> set b. length row = W)"
  proof
    fix b assume "b \<in> set bs"
    then obtain i where i: "i < length bs" "b = bs ! i" by (auto simp: in_set_conv_nth)
    then have ir: "i < length resized" using l by simp
    from mapM_nth[OF m ir] have fb: "?f (resized ! i) = Inr b" using i by simp
    have "\<exists>g. b = map (map g) (resized ! i)"
    proof (cases nan)
      case True
      with fb have "nan_gt (resized ! i) = Inr b" by simp
      then show ?thesis by (blast dest: nan_gt_eq)
    next
      case False
      with fb have "normalize_gt thr (resized ! i) = Inr b" by simp
      then show ?thesis by (blast dest: normalize_gt_eq)
    qed
    then obtain g where b: "b = map (map g) (resized ! i)" by blast
    have "resized ! i \<in> set resized" using ir by simp
    with assms(2) have "length (resized ! i) = H \<and> (\<forall>row \<in> set (resized ! i). length row = W)"
      by blast
    then show "length b = H \<and> (\<forall>row \<in> set b. length row = W)" unfolding b by auto
  qed
qed

lemma float_mask_shape:
  assumes "\<forall>b \<in> set u. length b = H \<and> (\<forall>row \<in> set b. length row = W)"
  shows "rect3 H W (map (map (map to_float)) u)"
  using assms by (intro rect3I) auto

lemma mask_stable_shape:
  assumes "mask_stable nearest lb x_t s = Inr msk"
  shows "length msk = length (alpha_layers lb) - 1"
    and "rect3 (latent_height x_t) (latent_width x_t) msk"
proof -
  let ?H = "latent_height x_t" and ?W = "latent_width x_t"
  from assms obtain resized bs where
    sal: "saliency_stable nearest lb x_t s = Inr resized"
    and th: "threshold_maps (threshold lb) (no_heads (select_stable s)) resized = Inr bs"
    and m: "msk = map (map (map to_float)) (map (or2 (hd bs)) (drop 1 bs))"
    unfolding mask_stable_def union_stable_eq by (auto split: sum.splits)
  note ss = saliency_stable_shape[OF sal]
  note ts = thresholded_shape[OF th ss(2)]
  show "length msk = length (alpha_layers lb) - 1" using m ts(1) ss(1) by simp
  have "\<forall>b \<in> set (map (or2 (hd bs)) (drop 1 bs)).
      length b = ?H \<and> (\<forall>row \<in> set b. length row = ?W)"
  proof
    fix b assume "b \<in> set (map (or2 (hd bs)) (drop 1 bs))"
    then obtain c where c: "c \<in> set (drop 1 bs)" "b = or2 (hd bs) c" by auto
    then have ne: "bs \<noteq> []" by auto
    then have h: "hd bs \<in> set bs" by simp
    have cs: "c \<in> set bs" using c(1) by (rule in_set_dropD)
    from ts(2) h cs have "length (hd bs) = ?H" "\<forall>row \<in> set (hd bs). length row = ?W"
      "length c = ?H" "\<forall>row \<in> set c. length row = ?W" by blast+
    from or2_shape[OF this] c(2)
    show "length b = ?H \<and> (\<forall>row \<in> set b. length row = ?W)" by simp
  qed
  then show "rect3 ?H ?W msk" unfolding m by (rule float_mask_shape)
qed

lemma latent_dims:
  assumes "rect4 C H W x_t" "x_t \<noteq> []" "0 < C" "0 < H"
  shows "latent_height x_t = H" and "latent_width x_t = W"
    and "length (hd x_t) = C" and "rect3 H W (hd x_t)"
proof -
  have "hd x_t \<in> set x_t" using assms(2) by simp
  from rect4D[OF assms(1) this] show c: "length (hd x_t) = C" and r: "rect3 H W (hd x_t)"
    by simp_all
  have "hd (hd x_t) \<in> set (hd x_t)" using c assms(3) by (cases "hd x_t") auto
  from rect3D[OF r this] have h: "length (hd (hd x_t)) = H"
    and w: "\<forall>v \<in> set (hd (hd x_t)). length v = W" by simp_all
  show "latent_height x_t = H" using h by (simp add: latent_height_def)
  have "hd (hd (hd x_t)) \<in> set (hd (hd x_t))" using h assms(4) by (cases "hd (hd x_t)") auto
  with w show "latent_width x_t = W" by (simp add: latent_width_def)
qed

lemma all_equal_rows:
  fixes m :: mat
  assumes "length m = H" "\<forall>row \<in> set m. length row = W"
    and "\<forall>row \<in> set m. \<forall>v \<in> set row. v = c"
  shows "m = replicate H (replicate W c)"
proof -
  have "\<forall>row \<in> set m. row = replicate W c"
    using assms(2,3) by (metis replicate_length_same)
  then show ?thesis using assms(1) by (metis replicate_length_same)
qed

lemma nearest_exact_bound: "0 < n \<Longrightarrow> i < m \<Longrightarrow> nearest_exact i n m < n"
proof -
  assume n: "0 < n" and i: "i < m"
  then have "i * n < n * m" by simp
  then show ?thesis using i by (simp add: nearest_exact_def div_less_iff_less_mult)
qed

lemma or2_const: "or2 (replicate H (replicate W g)) (replicate H (replicate W g))
    = replicate H (replicate W g)"
  by (simp add: or2_def)

lemma thresholded_const:
  assumes "0 < H" "0 < W"
  shows "mapM (normalize_gt thr) (replicate n (replicate H (replicate W v)))
     = Inr (replicate n (replicate H (replicate W (fgt (fdiv v v) thr))))"
proof -
  have "mapM (normalize_gt thr) (replicate n (replicate H (replicate W v)))
      = Inr (map (\<lambda>m. replicate H (replicate W (fgt (fdiv v v) thr)))
               (replicate n (replicate H (replicate W v))))"
    by (rule mapM_Inr) (simp add: normalize_gt_const[OF assms])
  then show ?thesis by simp
qed

lemma saliency_stable_const:
  assumes sel: "select_stable s = replicate k (replicate (n * h) (replicate 256 (replicate 77 c)))"
    and pos: "0 < k" "0 < h" "0 < n"
    and alpha: "alpha_layers lb = replicate n a" "length a = 77" "sum_list a = 1"
    and near: "\<forall>i < latent_height x_t. nearest i 16 (latent_height x_t) < 16"
       "\<forall>j < latent_width x_t. nearest j 16 (latent_width x_t) < 16"
  shows "saliency_stable nearest lb x_t s
     = Inr (replicate n (replicate (latent_height x_t) (replicate (latent_width x_t) c)))"
proof -
  have la: "length (replicate n a) = n" by simp
  have ra: "rect_words 77 (replicate n a)" using alpha(2) by (simp add: rect_words_def list_all_iff)
  have "word_maps (replicate n a)
      (replicate k (replicate (length (replicate n a) * h) (replicate 256 (replicate 77 c))))
      = Inr (map (\<lambda>a. replicate 16 (replicate 16 (c * sum_list a))) (replicate n a))"
    by (rule word_maps_const) (use pos ra in simp_all)
  then have w: "word_maps (alpha_layers lb) (select_stable s)
      = Inr (replicate n (replicate 16 (replicate 16 c)))"
    by (simp add: sel alpha)
  have i: "interpolate nearest (latent_height x_t) (latent_width x_t) (replicate 16 (replicate 16 c))
      = replicate (latent_height x_t) (replicate (latent_width x_t) c)"
    by (rule interpolate_const) (use near in simp_all)
  show ?thesis
    unfolding saliency_stable_def w by (simp add: max_pool2d_const i)
qed


lemma mask_stable_const:
  assumes sal: "saliency_stable nearest lb x_t s = Inr (replicate n (replicate H (replicate W c)))"
    and pos: "0 < n" "0 < H" "0 < W"
    and heads: "\<not> no_heads (select_stable s)"
  shows "mask_stable nearest lb x_t s
     = Inr (replicate (n - 1) (replicate H (replicate W (to_float (fgt (fdiv c c) (threshold lb))))))"
proof -
  let ?B = "replicate H (replicate W (fgt (fdiv c c) (threshold lb)))"
  have hd: "hd (replicate n ?B) = ?B" using pos(1) by (cases n) simp_all
  have dr: "drop 1 (replicate n ?B) = replicate (n - 1) ?B" by simp
  show ?thesis
    unfolding mask_stable_def sal threshold_maps_heads[OF heads]
    by (simp only: sum.case thresholded_const[OF pos(2,3)] union_stable_eq hd dr
        map_replicate or2_const)
qed


lemma demo_select_stable: "select_stable (demo_blend_store n c) = replicate 1 (demo_item n c)"
  by (simp add: select_stable_def demo_blend_store_def get_empty_store_def)

lemma demo_item_heads:
  "0 < n \<Longrightarrow> 0 < k \<Longrightarrow> \<not> no_heads (replicate k (demo_item n c))"
  "0 < n \<Longrightarrow> \<not> no_heads [demo_item n c]"
  by (cases k; simp add: no_heads_def demo_item_def concat_replicate_replicate)
    (simp add: no_heads_def demo_item_def concat_replicate_replicate)

lemma demo_one_hot: "length (1 # replicate 76 (0 :: real)) = 77" "sum_list (1 # replicate 76 (0 :: real)) = 1"
  by (simp_all add: sum_list_replicate)

lemma demo_latent_dims:
  "latent_height demo_latent1 = 1" "latent_width demo_latent1 = 2"
  "latent_height demo_latent2 = 1" "latent_width demo_latent2 = 2"
  "latent_height demo_latent3 = 1" "latent_width demo_latent3 = 2"
  by (simp_all add: latent_height_def latent_width_def demo_latent1_def demo_latent2_def
      demo_latent3_def)

lemma demo_mask_stable:
  assumes "0 < n" "latent_height x_t = 1" "latent_width x_t = 2"
  shows "mask_stable nearest_exact (demo_blend n) x_t (demo_blend_store n c)
     = Inr (replicate (n - 1) [[to_float (fgt (fdiv c c) (3 / 10)), to_float (fgt (fdiv c c) (3 / 10))]])"
proof -
  have sal: "saliency_stable nearest_exact (demo_blend n) x_t (demo_blend_store n c)
      = Inr (replicate n (replicate (latent_height x_t) (replicate (latent_width x_t) c)))"
  proof (rule saliency_stable_const)
    show "select_stable (demo_blend_store n c)
        = replicate 1 (replicate (n * 1) (replicate 256 (replicate 77 c)))"
      by (simp add: demo_select_stable demo_item_def)
    show "alpha_layers (demo_blend n) = replicate n (1 # replicate 76 0)"
      by (simp add: demo_blend_def)
  qed (use assms in \<open>simp_all add: demo_one_hot nearest_exact_bound sum_list_replicate\<close>)
  have "mask_stable nearest_exact (demo_blend n) x_t (demo_blend_store n c)
     = Inr (replicate (n - 1) (replicate 1 (replicate 2
          (to_float (fgt (fdiv c c) (threshold (demo_blend n)))))))"
    by (rule mask_stable_const)
      (use sal assms in \<open>simp_all add: demo_select_stable demo_item_heads\<close>)
  then show ?thesis by (simp add: demo_blend_def numeral_2_eq_2)
qed

text \<open>
  C5. The local blend of the Stable Diffusion variant, for a latent batch of as many rows
  as the blend has prompts and a computed mask: for a batch of two, an all-ones mask
  returns every row of the batch unchanged and an all-zero mask returns the source row
  for every row. For a batch of three or more the call does not return: the mask has one
  row less than the batch and the product raises the library's shape error. For a batch
  of one the call returns an empty batch.
\<close>

theorem local_blend_identity:
  assumes msk: "mask_stable nearest lb x_t s = Inr msk"
    and n: "length (alpha_layers lb) = length x_t"
    and shape: "rect4 C H W x_t" "0 < C" "0 < H"
  shows "(length x_t = 2 \<and> (\<forall>m \<in> set msk. \<forall>row \<in> set m. \<forall>v \<in> set row. v = 1)
            \<longrightarrow> local_blend_stable nearest lb x_t s = Inr x_t)
       \<and> (length x_t = 2 \<and> (\<forall>m \<in> set msk. \<forall>row \<in> set m. \<forall>v \<in> set row. v = 0)
            \<longrightarrow> local_blend_stable nearest lb x_t s = Inr (replicate 2 (hd x_t)))
       \<and> (3 \<le> length x_t \<longrightarrow> local_blend_stable nearest lb x_t s = Inl RuntimeError)
       \<and> (length x_t = 1 \<longrightarrow> local_blend_stable nearest lb x_t s = Inr [])"
proof -
  have call: "local_blend_stable nearest lb x_t s = blend x_t msk"
    by (simp add: local_blend_stable_def msk)
  note ms = mask_stable_shape[OF msk]
  have two: "local_blend_stable nearest lb x_t s =
      Inr [hd x_t, if c = 1 then x_t ! 1 else hd x_t]"
    if l2: "length x_t = 2" and all: "\<forall>m \<in> set msk. \<forall>row \<in> set m. \<forall>v \<in> set row. v = c"
      and c: "c = 1 \<or> c = 0" for c
  proof -
    have ne: "x_t \<noteq> []" using l2 by auto
    note ld = latent_dims[OF shape(1) ne shape(2,3)]
    from ms(1) n l2 have "length msk = 1" by simp
    then obtain m where m: "msk = [m]" by (cases msk) auto
    have mm: "m \<in> set msk" using m by simp
    from rect3D[OF ms(2) mm] ld have "length m = H" "\<forall>row \<in> set m. length row = W" by simp_all
    moreover have "\<forall>row \<in> set m. \<forall>v \<in> set row. v = c" using all mm by blast
    ultimately have mc: "m = replicate H (replicate W c)" by (rule all_equal_rows)
    from l2 obtain x0 x1 where x: "x_t = [x0, x1]"
      by (cases x_t; cases "tl x_t") auto
    have r0: "length x0 = C" "rect3 H W x0" and r1: "length x1 = C" "rect3 H W x1"
      using rect4D[OF shape(1), of x0] rect4D[OF shape(1), of x1] x by simp_all
    have b: "blend x_t msk =
        Inr (map (\<lambda>x. map2 (map2 (map2 (+))) x0
                  (map (\<lambda>channel. map2 (map2 (*)) (replicate H (replicate W c)) channel)
                     (map2 (map2 (map2 (-))) x x0))) x_t)"
      using blend_single[OF ne, of m] by (simp add: m mc x)
    show ?thesis
    proof (cases "c = 1")
      case True
      have "map (\<lambda>x. map2 (map2 (map2 (+))) x0
                  (map (\<lambda>channel. map2 (map2 (*)) (replicate H (replicate W 1)) channel)
                     (map2 (map2 (map2 (-))) x x0))) [x0, x1] = [x0, x1]"
        using latent_blend_one[OF r0 r0] latent_blend_one[OF r1 r0] by simp
      then show ?thesis unfolding call b using True by (simp add: x)
    next
      case False
      then have z: "c = 0" using c by simp
      have "map (\<lambda>x. map2 (map2 (map2 (+))) x0
                  (map (\<lambda>channel. map2 (map2 (*)) (replicate H (replicate W 0)) channel)
                     (map2 (map2 (map2 (-))) x x0))) [x0, x1] = [x0, x0]"
        using latent_blend_zero[OF r0 r0] latent_blend_zero[OF r1 r0] by simp
      then show ?thesis unfolding call b using z by (simp add: x)
    qed
  qed
  have ones: "local_blend_stable nearest lb x_t s = Inr x_t"
    if "length x_t = 2 \<and> (\<forall>m \<in> set msk. \<forall>row \<in> set m. \<forall>v \<in> set row. v = 1)"
  proof -
    from that obtain x0 x1 where x: "x_t = [x0, x1]"
      by (cases x_t; cases "tl x_t") auto
    from two[of 1] that show ?thesis by (simp add: x)
  qed
  have zeros: "local_blend_stable nearest lb x_t s = Inr (replicate 2 (hd x_t))"
    if "length x_t = 2 \<and> (\<forall>m \<in> set msk. \<forall>row \<in> set m. \<forall>v \<in> set row. v = 0)"
    using two[of 0] that by (simp add: numeral_2_eq_2)
  have many: "local_blend_stable nearest lb x_t s = Inl RuntimeError" if "3 \<le> length x_t"
    unfolding call
    by (rule blend_mismatch) (use that ms(1) n in auto)
  have one: "local_blend_stable nearest lb x_t s = Inr []" if "length x_t = 1"
  proof -
    have "msk = []" using ms(1) n that by simp
    then show ?thesis unfolding call using blend_no_mask[OF that] by simp
  qed
  from ones zeros many one show ?thesis by blast
qed


theorem local_blend_identity_witness:
  "local_blend_stable nearest_exact (demo_blend 2) demo_latent2 (demo_blend_store 2 1)
     = Inr demo_latent2 \<and>
   local_blend_stable nearest_exact (demo_blend 2) demo_latent2 (demo_blend_store 2 0)
     = Inr [[[[1, 2]]], [[[1, 2]]]] \<and>
   local_blend_stable nearest_exact (demo_blend 3) demo_latent3 (demo_blend_store 3 1)
     = Inl RuntimeError \<and>
   local_blend_stable nearest_exact (demo_blend 1) demo_latent1 (demo_blend_store 1 1) = Inr []"
proof (intro conjI)
  have m1: "mask_stable nearest_exact (demo_blend 2) demo_latent2 (demo_blend_store 2 1)
      = Inr [[[1, 1]]]"
    using demo_mask_stable[of 2 demo_latent2 1]
    by (simp add: demo_latent_dims fdiv_def fgt_def to_float_def)
  have m0: "mask_stable nearest_exact (demo_blend 2) demo_latent2 (demo_blend_store 2 0)
      = Inr [[[0, 0]]]"
    using demo_mask_stable[of 2 demo_latent2 0]
    by (simp add: demo_latent_dims fdiv_def fgt_def to_float_def)
  have m3: "mask_stable nearest_exact (demo_blend 3) demo_latent3 (demo_blend_store 3 1)
      = Inr [[[1, 1]], [[1, 1]]]"
    using demo_mask_stable[of 3 demo_latent3 1]
    by (simp add: demo_latent_dims fdiv_def fgt_def to_float_def numeral_eq_Suc)
  have m4: "mask_stable nearest_exact (demo_blend 1) demo_latent1 (demo_blend_store 1 1)
      = Inr []"
    using demo_mask_stable[of 1 demo_latent1 1] by (simp add: demo_latent_dims)
  have r1: "rect4 1 1 2 demo_latent1" by (simp add: rect4_def rect3_def demo_latent1_def)
  have r2: "rect4 1 1 2 demo_latent2" by (simp add: rect4_def rect3_def demo_latent2_def)
  have r3: "rect4 1 1 2 demo_latent3" by (simp add: rect4_def rect3_def demo_latent3_def)
  have l1: "length (alpha_layers (demo_blend 1)) = length demo_latent1"
    by (simp add: demo_blend_def demo_latent1_def)
  have l2: "length (alpha_layers (demo_blend 2)) = length demo_latent2"
    by (simp add: demo_blend_def demo_latent2_def)
  have l3: "length (alpha_layers (demo_blend 3)) = length demo_latent3"
    by (simp add: demo_blend_def demo_latent3_def)
  show "local_blend_stable nearest_exact (demo_blend 2) demo_latent2 (demo_blend_store 2 1)
     = Inr demo_latent2"
    using local_blend_identity[OF m1 l2 r2, THEN conjunct1] by (simp add: demo_latent2_def)
  show "local_blend_stable nearest_exact (demo_blend 2) demo_latent2 (demo_blend_store 2 0)
     = Inr [[[[1, 2]]], [[[1, 2]]]]"
    using local_blend_identity[OF m0 l2 r2, THEN conjunct2, THEN conjunct1]
    by (simp add: demo_latent2_def numeral_2_eq_2)
  show "local_blend_stable nearest_exact (demo_blend 3) demo_latent3 (demo_blend_store 3 1)
     = Inl RuntimeError"
    using local_blend_identity[OF m3 l3 r3, THEN conjunct2, THEN conjunct2, THEN conjunct1]
    by (simp add: demo_latent3_def)
  show "local_blend_stable nearest_exact (demo_blend 1) demo_latent1 (demo_blend_store 1 1) = Inr []"
    using local_blend_identity[OF m4 l1 r1, THEN conjunct2, THEN conjunct2, THEN conjunct2]
    by (simp add: demo_latent1_def)
qed





















lemma demo_item_const: "demo_item n c = replicate (n * 1) (replicate 256 (replicate 77 c))"
  by (simp add: demo_item_def)









end
